theory Spec2Isabelle
  imports Complex_Main "HOL-Library.Word" "HOL-Library.Char_ord"
begin

unbundle bit_operations_syntax

section \<open>Number codec: \<open>print_number\<close>\<close>

subsection \<open>Double-precision values\<close>

text \<open>
  A C \<open>double\<close> is a finite value, one of the two infinities, or a NaN. The finite
  values are embedded in the reals; the operations below are the ones \<open>print_number\<close>
  applies (\<open>==\<close>, \<open>!=\<close>, the order comparisons, \<open>-\<close>, \<open>*\<close>, \<open>fabs\<close>, \<open>floor\<close>), with the
  IEEE 754 rules for the special values: every comparison with a NaN is false except
  \<open>!=\<close>, \<open>inf - inf\<close> and \<open>inf * 0\<close> are NaN. Negative zero is not distinguished from zero
  (\<open>print_number\<close> compares it equal to zero in its first test).
\<close>

datatype double = Fin real | PInf | NInf | NaN

fun d_eq :: "double \<Rightarrow> double \<Rightarrow> bool" where
  "d_eq (Fin a) (Fin b) = (a = b)"
| "d_eq PInf PInf = True"
| "d_eq NInf NInf = True"
| "d_eq _ _ = False"

definition d_ne :: "double \<Rightarrow> double \<Rightarrow> bool" where
  "d_ne a b = (\<not> d_eq a b)"

fun d_le :: "double \<Rightarrow> double \<Rightarrow> bool" where
  "d_le NaN _ = False"
| "d_le _ NaN = False"
| "d_le NInf _ = True"
| "d_le _ PInf = True"
| "d_le (Fin a) (Fin b) = (a \<le> b)"
| "d_le _ _ = False"

fun d_lt :: "double \<Rightarrow> double \<Rightarrow> bool" where
  "d_lt NaN _ = False"
| "d_lt _ NaN = False"
| "d_lt PInf _ = False"
| "d_lt _ NInf = False"
| "d_lt (Fin a) (Fin b) = (a < b)"
| "d_lt _ _ = True"

definition d_ge :: "double \<Rightarrow> double \<Rightarrow> bool" where
  "d_ge a b = d_le b a"

definition d_gt :: "double \<Rightarrow> double \<Rightarrow> bool" where
  "d_gt a b = d_lt b a"

fun d_sub :: "double \<Rightarrow> double \<Rightarrow> double" where
  "d_sub (Fin a) (Fin b) = Fin (a - b)"
| "d_sub NaN _ = NaN"
| "d_sub _ NaN = NaN"
| "d_sub PInf PInf = NaN"
| "d_sub NInf NInf = NaN"
| "d_sub PInf _ = PInf"
| "d_sub NInf _ = NInf"
| "d_sub (Fin a) PInf = NInf"
| "d_sub (Fin a) NInf = PInf"

fun d_mul :: "double \<Rightarrow> double \<Rightarrow> double" where
  "d_mul (Fin a) (Fin b) = Fin (a * b)"
| "d_mul NaN _ = NaN"
| "d_mul _ NaN = NaN"
| "d_mul PInf (Fin b) = (if b = 0 then NaN else if 0 < b then PInf else NInf)"
| "d_mul NInf (Fin b) = (if b = 0 then NaN else if 0 < b then NInf else PInf)"
| "d_mul (Fin a) PInf = (if a = 0 then NaN else if 0 < a then PInf else NInf)"
| "d_mul (Fin a) NInf = (if a = 0 then NaN else if 0 < a then NInf else PInf)"
| "d_mul PInf PInf = PInf"
| "d_mul NInf NInf = PInf"
| "d_mul PInf NInf = NInf"
| "d_mul NInf PInf = NInf"

fun fabs :: "double \<Rightarrow> double" where
  "fabs (Fin a) = Fin \<bar>a\<bar>"
| "fabs PInf = PInf"
| "fabs NInf = PInf"
| "fabs NaN = NaN"

fun d_floor :: "double \<Rightarrow> double" where
  "d_floor (Fin a) = Fin (of_int \<lfloor>a\<rfloor>)"
| "d_floor d = d"

text \<open>The constants of \<open>float.h\<close> and \<open>limits.h\<close> for IEEE doubles and a 32-bit \<open>int\<close>.\<close>

definition DBL_EPSILON :: double where
  "DBL_EPSILON = Fin (1 / 2 ^ 52)"

definition INT_MAX :: int where
  "INT_MAX = 2147483647"

definition INT_MIN :: int where
  "INT_MIN = - 2147483648"

text \<open>The conversion \<open>(int)d\<close> of a value in range: truncation towards zero.\<close>

definition int_of_double :: "double \<Rightarrow> int" where
  "int_of_double d = (case d of Fin a \<Rightarrow> (if 0 \<le> a then \<lfloor>a\<rfloor> else \<lceil>a\<rceil>) | _ \<Rightarrow> 0)"

subsection \<open>The branch structure of \<open>print_number\<close>\<close>

text \<open>
  What \<open>print_number\<close> writes into its output region: the literal it copies or the
  \<open>sprintf\<close> conversion it applies, with the converted argument.
\<close>

datatype rendering =
    Literal string
  | Fmt_d int
  | Fmt_0f double
  | Fmt_e double
  | Fmt_f double

text \<open>
  The floating constants \<open>1.0e60\<close>, \<open>1.0e-6\<close> and \<open>1.0e9\<close> of the source are doubles: the
  representable values nearest to the decimal values. \<open>1.0e9\<close> is exact; \<open>1.0e60\<close> and
  \<open>1.0e-6\<close> are 53-bit multiples of \<open>2^147\<close> and \<open>2^-72\<close>, each slightly below the decimal
  value.
\<close>

definition dbl_1e60 :: double where
  "dbl_1e60 = Fin (5605193857299268 * 2 ^ 147)"

definition dbl_1e_minus_6 :: double where
  "dbl_1e_minus_6 = Fin (4722366482869645 / 2 ^ 72)"

definition dbl_1e9 :: double where
  "dbl_1e9 = Fin 1000000000"

definition is_int_valued :: "double \<Rightarrow> bool" where
  "is_int_valued d = d_le (fabs (d_sub (d_floor d) d)) DBL_EPSILON"

definition print_number_call :: "double \<Rightarrow> rendering" where
  "print_number_call d =
     (if d_eq d (Fin 0) then Literal ''0''
      else if d_le (fabs (d_sub (d_floor d) d)) DBL_EPSILON
              \<and> d_le d (Fin (of_int INT_MAX)) \<and> d_ge d (Fin (of_int INT_MIN))
      then Fmt_d (int_of_double d)
      else
        (if d_ne (d_mul d (Fin 0)) (Fin 0) then Literal ''null''
         else if d_le (fabs (d_sub (d_floor d) d)) DBL_EPSILON \<and> d_lt (fabs d) dbl_1e60
         then Fmt_0f d
         else if d_lt (fabs d) dbl_1e_minus_6 \<or> d_gt (fabs d) dbl_1e9
         then Fmt_e d
         else Fmt_f d))"

text \<open>
  The rendering policy in the order the specification lists it: zero; integer-valued
  within the \<open>int\<close> range; integer-valued below \<open>1e60\<close>; magnitude below \<open>1e-6\<close> or at or
  above \<open>1e9\<close>; NaN or infinite; everything else. The policy is one on doubles, and its
  bounds \<open>1e60\<close>, \<open>1e-6\<close> and \<open>1e9\<close> are the doubles of these names.
\<close>

definition is_nan_or_inf :: "double \<Rightarrow> bool" where
  "is_nan_or_inf d = (case d of Fin a \<Rightarrow> False | _ \<Rightarrow> True)"

definition spec_number_policy :: "double \<Rightarrow> rendering" where
  "spec_number_policy d =
     (if d_eq d (Fin 0) then Literal ''0''
      else if is_int_valued d \<and> d_le d (Fin (of_int INT_MAX)) \<and> d_ge d (Fin (of_int INT_MIN))
      then Fmt_d (int_of_double d)
      else if is_int_valued d \<and> d_lt (fabs d) dbl_1e60 then Fmt_0f d
      else if d_lt (fabs d) dbl_1e_minus_6 \<or> d_ge (fabs d) dbl_1e9 then Fmt_e d
      else if is_nan_or_inf d then Literal ''null''
      else Fmt_f d)"

subsection \<open>The text \<open>print_number\<close> writes\<close>

text \<open>
  \<open>sprintf\<close> belongs to the C library, not to this repository. The conversions that
  \<open>print_number\<close> uses are modelled as the C standard defines them in the "C" locale:
  \<open>%d\<close> writes the decimal digits of an \<open>int\<close> with a leading minus sign for a negative
  value; \<open>%.0f\<close> and \<open>%f\<close> write the value rounded to zero or six decimals; \<open>%e\<close> writes
  one digit, six decimals and an exponent of at least two digits. Rounding is to
  nearest, ties to even, on the exact value.
\<close>

definition digit_char :: "nat \<Rightarrow> char" where
  "digit_char n = char_of (48 + n)"

fun dec_digits :: "nat \<Rightarrow> string" where
  "dec_digits n = (if n < 10 then [digit_char n] else dec_digits (n div 10) @ [digit_char (n mod 10)])"

declare dec_digits.simps [simp del]

definition zero_pad :: "nat \<Rightarrow> string \<Rightarrow> string" where
  "zero_pad w ds = replicate (w - length ds) (CHR ''0'') @ ds"

definition round_half_even :: "real \<Rightarrow> int" where
  "round_half_even x =
     (let f = \<lfloor>x\<rfloor>; r = x - of_int f
      in if r < 1 / 2 then f else if 1 / 2 < r then f + 1 else if even f then f else f + 1)"

definition sprintf_d :: "int \<Rightarrow> string" where
  "sprintf_d i = (if i < 0 then ''-'' else []) @ dec_digits (nat \<bar>i\<bar>)"

definition fixed_digits :: "nat \<Rightarrow> nat \<Rightarrow> string" where
  "fixed_digits prec n =
     dec_digits (n div 10 ^ prec)
     @ (if prec = 0 then [] else ''.'' @ zero_pad prec (dec_digits (n mod 10 ^ prec)))"

definition sprintf_f :: "nat \<Rightarrow> double \<Rightarrow> string" where
  "sprintf_f prec d =
     (case d of
        Fin x \<Rightarrow> (if x < 0 then ''-'' else []) @ fixed_digits prec (nat (round_half_even (\<bar>x\<bar> * 10 ^ prec)))
      | PInf \<Rightarrow> ''inf''
      | NInf \<Rightarrow> ''-inf''
      | NaN \<Rightarrow> ''nan'')"

function exp10_up :: "real \<Rightarrow> nat" where
  "exp10_up x = (if x < 10 then 0 else Suc (exp10_up (x / 10)))"
  by pat_completeness auto
termination
proof (relation "measure (\<lambda>x. nat \<lfloor>x\<rfloor>)")
  show "wf (measure (\<lambda>x::real. nat \<lfloor>x\<rfloor>))" by simp
next
  fix x :: real
  assume "\<not> x < 10"
  then have "x / 10 \<le> x - 9" by simp
  then have "\<lfloor>x / 10\<rfloor> \<le> \<lfloor>x - 9\<rfloor>" by (rule floor_mono)
  also have "\<dots> = \<lfloor>x\<rfloor> - 9" by simp
  finally have "\<lfloor>x / 10\<rfloor> < \<lfloor>x\<rfloor>" by simp
  moreover have "0 < \<lfloor>x\<rfloor>" using \<open>\<not> x < 10\<close> by simp
  ultimately show "(x / 10, x) \<in> measure (\<lambda>x. nat \<lfloor>x\<rfloor>)" by simp
qed

function exp10_down :: "real \<Rightarrow> nat" where
  "exp10_down x = (if x \<le> 0 \<or> 1 \<le> x then 0 else Suc (exp10_down (x * 10)))"
  by pat_completeness auto
termination
proof (relation "measure (\<lambda>x. nat \<lceil>1 / x\<rceil>)")
  show "wf (measure (\<lambda>x::real. nat \<lceil>1 / x\<rceil>))" by simp
next
  fix x :: real
  assume "\<not> (x \<le> 0 \<or> 1 \<le> x)"
  then have x: "0 < x" "x < 1" by simp_all
  define y where "y = 1 / x"
  have y: "1 < y" using x by (simp add: y_def)
  have eq: "1 / (x * 10) = y / 10" by (simp add: y_def)
  have "2 \<le> \<lceil>y\<rceil>" using y by linarith
  have "y / 10 + 1 \<le> of_int \<lceil>y\<rceil>"
  proof (cases "y \<le> 10")
    case True
    then have "y / 10 + 1 \<le> 2" by simp
    also have "\<dots> \<le> of_int \<lceil>y\<rceil>" using \<open>2 \<le> \<lceil>y\<rceil>\<close> by linarith
    finally show ?thesis .
  next
    case False
    then have "y / 10 + 1 \<le> y" by simp
    also have "\<dots> \<le> of_int \<lceil>y\<rceil>" by simp
    finally show ?thesis .
  qed
  moreover have "of_int \<lceil>y / 10\<rceil> < y / 10 + 1" by linarith
  ultimately have "\<lceil>y / 10\<rceil> < \<lceil>y\<rceil>" by linarith
  then show "(x * 10, x) \<in> measure (\<lambda>x. nat \<lceil>1 / x\<rceil>)"
    using \<open>2 \<le> \<lceil>y\<rceil>\<close> by (simp add: eq y_def [symmetric])
qed

declare exp10_up.simps [simp del] exp10_down.simps [simp del]

definition sprintf_e :: "double \<Rightarrow> string" where
  "sprintf_e d =
     (case d of
        Fin x \<Rightarrow>
          (let a = \<bar>x\<bar>;
               up = exp10_up a;
               down = exp10_down a;
               m = (if a = 0 then 0 else if 1 \<le> a then a / 10 ^ up else a * 10 ^ down);
               n = nat (round_half_even (m * 10 ^ 6));
               carry = (10 ^ 7 \<le> n);
               n' = (if carry then n div 10 else n);
               e = (if 1 \<le> a then int up else - int down) + (if carry then 1 else 0)
           in (if x < 0 then ''-'' else []) @ fixed_digits 6 n'
              @ ''e'' @ (if e < 0 then ''-'' else ''+'') @ zero_pad 2 (dec_digits (nat \<bar>e\<bar>)))
      | PInf \<Rightarrow> ''inf''
      | NInf \<Rightarrow> ''-inf''
      | NaN \<Rightarrow> ''nan'')"

fun render :: "rendering \<Rightarrow> string" where
  "render (Literal s) = s"
| "render (Fmt_d i) = sprintf_d i"
| "render (Fmt_0f d) = sprintf_f 0 d"
| "render (Fmt_e d) = sprintf_e d"
| "render (Fmt_f d) = sprintf_f 6 d"

text \<open>The text \<open>print_number\<close> leaves in the region \<open>str\<close> (when the region was obtained).\<close>

definition print_number :: "double \<Rightarrow> string" where
  "print_number d = render (print_number_call d)"

section \<open>Allocator capability and growable print buffer\<close>

subsection \<open>Memory\<close>

text \<open>
  Addresses are natural numbers and \<open>NULL\<close> is address zero. The heap holds the live
  character blocks (a byte that has not been written yet is \<open>None\<close>), the addresses
  handed to the release function in call order, and the allocator's own state.
  \<open>malloc_fn\<close> is the acquire function of the hooks: it fails (returns \<open>NULL\<close>) when the
  request exceeds what the allocator can still hand out, and returns a fresh block of
  unwritten bytes otherwise. \<open>free_fn\<close> is the release function. An access outside a
  live block sets the flag \<open>ub\<close>.
\<close>

type_synonym ptr = nat

definition NULL :: ptr where
  "NULL = 0"

record heap =
  blocks :: "ptr \<Rightarrow> char option list option"
  released :: "ptr list"
  brk :: ptr
  avail :: nat
  ub :: bool

definition malloc_fn :: "heap \<Rightarrow> nat \<Rightarrow> ptr \<times> heap" where
  "malloc_fn h n =
     (if n \<le> avail h
      then (Suc (brk h),
            h\<lparr>blocks := (blocks h)(Suc (brk h) \<mapsto> replicate n None),
              brk := Suc (brk h), avail := avail h - n\<rparr>)
      else (NULL, h))"

definition free_fn :: "heap \<Rightarrow> ptr \<Rightarrow> heap" where
  "free_fn h a =
     (if a = NULL then h
      else h\<lparr>blocks := (blocks h)(a := None), released := released h @ [a],
             ub := (ub h \<or> blocks h a = None)\<rparr>)"

definition memcpy :: "heap \<Rightarrow> ptr \<Rightarrow> ptr \<Rightarrow> nat \<Rightarrow> heap" where
  "memcpy h dst src n =
     (case (blocks h dst, blocks h src) of
        (Some d, Some s) \<Rightarrow>
          if n \<le> length d \<and> n \<le> length s
          then h\<lparr>blocks := (blocks h)(dst \<mapsto> take n s @ drop n d)\<rparr>
          else h\<lparr>ub := True\<rparr>
      | _ \<Rightarrow> h\<lparr>ub := True\<rparr>)"

subsection \<open>\<open>printbuffer\<close> and \<open>ensure\<close>\<close>

text \<open>
  \<open>size_t\<close> is an unsigned machine integer whose width depends on the platform; the
  width is the type parameter \<open>'a\<close>. The structure \<open>printbuffer\<close> is the triple of its
  fields \<open>buffer\<close>, \<open>length\<close> and \<open>offset\<close>. A \<open>char *\<close> into the buffer is a block address
  and a byte index in the block.
\<close>

type_synonym 'a printbuffer = "ptr \<times> 'a word \<times> 'a word"

definition Printbuffer :: "ptr \<Rightarrow> 'a::len word \<Rightarrow> 'a word \<Rightarrow> 'a printbuffer" where
  "Printbuffer b l off = (b, l, off)"

definition buffer :: "'a::len printbuffer \<Rightarrow> ptr" where
  "buffer pb = fst pb"

definition length_p :: "'a::len printbuffer \<Rightarrow> 'a word" where
  "length_p pb = fst (snd pb)"

definition offset :: "'a::len printbuffer \<Rightarrow> 'a word" where
  "offset pb = snd (snd pb)"

definition ensure ::
  "'a::len printbuffer option \<Rightarrow> 'a word \<Rightarrow> heap
     \<Rightarrow> (ptr \<times> nat) option \<times> 'a printbuffer option \<times> heap" where
  "ensure p needed h =
     (case p of
        None \<Rightarrow> (None, p, h)
      | Some pb \<Rightarrow>
          if buffer pb = NULL then (None, p, h)
          else
            let needed = needed + offset pb in
            if needed \<le> length_p pb then (Some (buffer pb, unat (offset pb)), p, h)
            else
              let newsize = max (length_p pb) needed * 2 in
              if newsize \<le> needed then (None, p, h)
              else
                let (newbuffer, h1) = malloc_fn h (unat newsize) in
                if newbuffer = NULL
                then (None, Some (Printbuffer NULL 0 (offset pb)), free_fn h1 (buffer pb))
                else
                  let h2 = memcpy h1 newbuffer (buffer pb) (unat (length_p pb));
                      h3 = free_fn h2 (buffer pb)
                  in (Some (newbuffer, unat (offset pb)),
                      Some (Printbuffer newbuffer newsize (offset pb)), h3))"

text \<open>
  The buffer describes its storage: the block at \<open>buffer\<close> is live and holds \<open>length_p\<close>
  bytes. Every live block lies at or below the allocator's break.
\<close>

definition buffer_ok :: "heap \<Rightarrow> 'a::len printbuffer \<Rightarrow> bool" where
  "buffer_ok h pb =
     (buffer pb \<noteq> NULL \<and>
      (case blocks h (buffer pb) of None \<Rightarrow> False | Some bs \<Rightarrow> length bs = unat (length_p pb)))"

definition heap_ok :: "heap \<Rightarrow> bool" where
  "heap_ok h = (\<not> ub h \<and> (\<forall>a. brk h < a \<longrightarrow> blocks h a = None))"

text \<open>The bytes of the region a returned pointer designates: the rest of its block.\<close>

definition region :: "heap \<Rightarrow> ptr \<times> nat \<Rightarrow> char option list" where
  "region h r = (case blocks h (fst r) of None \<Rightarrow> [] | Some bs \<Rightarrow> drop (snd r) bs)"

definition contents :: "heap \<Rightarrow> ptr \<Rightarrow> char option list" where
  "contents h a = (case blocks h a of None \<Rightarrow> [] | Some bs \<Rightarrow> bs)"

section \<open>Value nodes in memory and the mutation primitives\<close>

subsection \<open>The node structure\<close>

text \<open>
  The header that declares \<open>struct cJSON\<close> and the type tags is not among the sources;
  the fields are the ones the functions access. The tags are a datatype, with the tag of
  a node that \<open>cJSON_New_Item\<close> has just cleared as a constructor of its own. The members
  of \<open>value\<close> are separate fields (no function reads a member other than the one written
  for the node's tag). \<open>name\<close> and \<open>value_string\<close> are addresses of character blocks.
\<close>

datatype cJSON_type =
    cJSON_Cleared
  | cJSON_False
  | cJSON_True
  | cJSON_NULL
  | cJSON_Number
  | cJSON_String
  | cJSON_Array
  | cJSON_Object

record cJSON =
  "next" :: ptr
  child :: ptr
  type :: cJSON_type
  value_string :: ptr
  value_number :: double
  value_boolean :: bool
  name :: ptr
  is_reference :: bool
  string_is_const :: bool

definition cleared_node :: cJSON where
  "cleared_node = \<lparr>next = NULL, child = NULL, type = cJSON_Cleared, value_string = NULL,
     value_number = Fin 0, value_boolean = False, name = NULL, is_reference = False,
     string_is_const = False\<rparr>"

text \<open>
  The program state: the node stored at each address and the heap of character blocks
  with the allocator. A node occupies a block of \<open>sizeof_cJSON\<close> bytes of the heap.
\<close>

record state =
  nodes :: "ptr \<Rightarrow> cJSON"
  hp :: heap

definition sizeof_cJSON :: nat where
  "sizeof_cJSON = 64"

definition cJSON_New_Item :: "state \<Rightarrow> ptr \<times> state" where
  "cJSON_New_Item s =
     (let (node, h) = malloc_fn (hp s) sizeof_cJSON
      in if node \<noteq> NULL then (node, s\<lparr>nodes := (nodes s)(node := cleared_node), hp := h\<rparr>)
         else (node, s\<lparr>hp := h\<rparr>))"

text \<open>
  \<open>cJSON_strdup\<close> copies a host string (given by its characters) with its terminator
  into a fresh block.
\<close>

definition cJSON_strdup :: "string \<Rightarrow> heap \<Rightarrow> ptr \<times> heap" where
  "cJSON_strdup str h =
     (let len = length str + 1;
          (copy, h1) = malloc_fn h len
      in if copy = NULL then (NULL, h1)
         else (copy, h1\<lparr>blocks := (blocks h1)(copy \<mapsto> map Some (str @ [CHR 0x00]))\<rparr>))"

definition internal_cJSON_CreateNull :: "state \<Rightarrow> ptr \<times> state" where
  "internal_cJSON_CreateNull s =
     (let (item, s1) = cJSON_New_Item s
      in if item \<noteq> NULL then (item, s1\<lparr>nodes := (nodes s1)(item := (nodes s1 item)\<lparr>type := cJSON_NULL\<rparr>)\<rparr>)
         else (item, s1))"

definition internal_cJSON_CreateArray :: "state \<Rightarrow> ptr \<times> state" where
  "internal_cJSON_CreateArray s =
     (let (item, s1) = cJSON_New_Item s
      in if item \<noteq> NULL then (item, s1\<lparr>nodes := (nodes s1)(item := (nodes s1 item)\<lparr>type := cJSON_Array\<rparr>)\<rparr>)
         else (item, s1))"

definition internal_cJSON_CreateObject :: "state \<Rightarrow> ptr \<times> state" where
  "internal_cJSON_CreateObject s =
     (let (item, s1) = cJSON_New_Item s
      in if item \<noteq> NULL then (item, s1\<lparr>nodes := (nodes s1)(item := (nodes s1 item)\<lparr>type := cJSON_Object\<rparr>)\<rparr>)
         else (item, s1))"

subsection \<open>Appending and detaching\<close>

definition suffix_object :: "state \<Rightarrow> ptr \<Rightarrow> ptr \<Rightarrow> state" where
  "suffix_object s prev item = s\<lparr>nodes := (nodes s)(prev := (nodes s prev)\<lparr>next := item\<rparr>)\<rparr>"

text \<open>
  The loop \<open>while (c->next) c = c->next\<close> of \<open>cJSON_AddItemToArray\<close>. It does not return
  on a cyclic chain, which is the value \<open>None\<close>.
\<close>

partial_function (option) AddItemToArray_tail :: "state \<Rightarrow> ptr \<Rightarrow> ptr option" where
  "AddItemToArray_tail s c =
     (if next (nodes s c) \<noteq> NULL then AddItemToArray_tail s (next (nodes s c)) else Some c)"

declare AddItemToArray_tail.simps [code]

definition cJSON_AddItemToArray :: "state \<Rightarrow> ptr \<Rightarrow> ptr \<Rightarrow> state option" where
  "cJSON_AddItemToArray s array item =
     (let c = child (nodes s array) in
      if item = NULL then Some s
      else if c = NULL
      then Some (s\<lparr>nodes := (nodes s)(array := (nodes s array)\<lparr>child := item\<rparr>)\<rparr>)
      else (case AddItemToArray_tail s c of
              None \<Rightarrow> None
            | Some c' \<Rightarrow> Some (suffix_object s c' item)))"

text \<open>
  The loop \<open>while (c && (which > 0))\<close> of \<open>cJSON_DetachItemFromArray\<close>, returning
  \<open>previous\<close> and \<open>c\<close>. The index is a \<open>size_t\<close> that only counts down to zero.
\<close>

fun Detach_walk :: "state \<Rightarrow> ptr \<Rightarrow> ptr \<Rightarrow> nat \<Rightarrow> ptr \<times> ptr" where
  "Detach_walk s previous c 0 = (previous, c)"
| "Detach_walk s previous c (Suc which) =
     (if c \<noteq> NULL then Detach_walk s c (next (nodes s c)) which else (previous, c))"

definition cJSON_DetachItemFromArray :: "state \<Rightarrow> ptr \<Rightarrow> nat \<Rightarrow> ptr \<times> state" where
  "cJSON_DetachItemFromArray s array which =
     (let (previous, c) = Detach_walk s NULL (child (nodes s array)) which in
      if c = NULL then (NULL, s)
      else
        let s1 = (if c = child (nodes s array)
                  then s\<lparr>nodes := (nodes s)(array := (nodes s array)\<lparr>child := next (nodes s c)\<rparr>)\<rparr>
                  else s\<lparr>nodes := (nodes s)(previous := (nodes s previous)\<lparr>next := next (nodes s c)\<rparr>)\<rparr>);
            s2 = s1\<lparr>nodes := (nodes s1)(c := (nodes s1 c)\<lparr>next := NULL\<rparr>)\<rparr>
        in (c, s2))"

text \<open>
  The child chain as a list of addresses: \<open>chain s p ps\<close> holds when following \<open>next\<close>
  from \<open>p\<close> visits exactly the nodes \<open>ps\<close> and then reaches \<open>NULL\<close>.
\<close>

fun chain :: "state \<Rightarrow> ptr \<Rightarrow> ptr list \<Rightarrow> bool" where
  "chain s p [] = (p = NULL)"
| "chain s p (q # qs) = (p = q \<and> p \<noteq> NULL \<and> chain s (next (nodes s p)) qs)"

definition children :: "state \<Rightarrow> ptr \<Rightarrow> ptr list \<Rightarrow> bool" where
  "children s parent ps = chain s (child (nodes s parent)) ps"

subsection \<open>Teardown and keyed appends\<close>

text \<open>
  \<open>internal_cJSON_Delete\<close>: the loop over the sibling chain with the recursion into the
  children. It does not return on a cyclic structure (\<open>None\<close>). A freed node keeps its
  contents in \<open>nodes\<close>; the release is recorded in the heap.
\<close>

definition release :: "state \<Rightarrow> ptr \<Rightarrow> state" where
  "release s a = s\<lparr>hp := free_fn (hp s) a\<rparr>"

partial_function (option) internal_cJSON_Delete :: "state \<Rightarrow> ptr \<Rightarrow> state option" where
  "internal_cJSON_Delete s c =
     (if c = NULL then Some s
      else
        Option.bind
          (if \<not> is_reference (nodes s c) \<and> child (nodes s c) \<noteq> NULL
           then internal_cJSON_Delete s (child (nodes s c))
           else Some s)
          (\<lambda>s1.
             let s2 = (if \<not> is_reference (nodes s1 c) \<and> type (nodes s1 c) = cJSON_String
                          \<and> value_string (nodes s1 c) \<noteq> NULL
                       then release s1 (value_string (nodes s1 c)) else s1);
                 s3 = (if \<not> string_is_const (nodes s2 c) \<and> name (nodes s2 c) \<noteq> NULL
                       then release s2 (name (nodes s2 c)) else s2);
                 s4 = release s3 c
             in internal_cJSON_Delete s4 (next (nodes s c))))"

declare internal_cJSON_Delete.simps [code]

definition cJSON_Delete :: "state \<Rightarrow> ptr \<Rightarrow> state option" where
  "cJSON_Delete s c = internal_cJSON_Delete s c"

text \<open>
  \<open>cJSON_AddItemToObject\<close> receives the key as a host string and stores a copy;
  \<open>cJSON_AddItemToObjectCS\<close> receives the address of the host's key text and stores the
  address itself.
\<close>

definition cJSON_AddItemToObject :: "state \<Rightarrow> ptr \<Rightarrow> string \<Rightarrow> ptr \<Rightarrow> state option" where
  "cJSON_AddItemToObject s object nm item =
     (if item = NULL then Some s
      else
        let s1 = (if name (nodes s item) \<noteq> NULL then release s (name (nodes s item)) else s);
            (copy, h) = cJSON_strdup nm (hp s1);
            s2 = s1\<lparr>nodes := (nodes s1)(item := (nodes s1 item)\<lparr>name := copy\<rparr>), hp := h\<rparr>
        in cJSON_AddItemToArray s2 object item)"

definition cJSON_AddItemToObjectCS :: "state \<Rightarrow> ptr \<Rightarrow> ptr \<Rightarrow> ptr \<Rightarrow> state option" where
  "cJSON_AddItemToObjectCS s object nm item =
     (if item = NULL then Some s
      else
        let s1 = (if \<not> string_is_const (nodes s item) \<and> name (nodes s item) \<noteq> NULL
                  then release s (name (nodes s item)) else s);
            s2 = s1\<lparr>nodes := (nodes s1)(item := (nodes s1 item)\<lparr>name := nm, string_is_const := True\<rparr>)\<rparr>
        in cJSON_AddItemToArray s2 object item)"

text \<open>A state with nothing allocated, whose allocator can hand out \<open>n\<close> bytes.\<close>

definition initial_state :: "nat \<Rightarrow> state" where
  "initial_state n =
     \<lparr>nodes = (\<lambda>a. cleared_node),
      hp = \<lparr>blocks = (\<lambda>a. None), released = [], brk = 0, avail = n, ub = False\<rparr>\<rparr>"

subsection \<open>Auxiliary notions for the properties\<close>

text \<open>A segment of a chain: following \<open>next\<close> from \<open>p\<close> visits \<open>ps\<close> and arrives at \<open>q\<close>.\<close>

fun path :: "state \<Rightarrow> ptr \<Rightarrow> ptr list \<Rightarrow> ptr \<Rightarrow> bool" where
  "path s p [] q = (p = q)"
| "path s p (x # xs) q = (p = x \<and> p \<noteq> NULL \<and> path s (next (nodes s p)) xs q)"


text \<open>A small state: the array at address 1 has the children 2, 3 and 4; the array at 9 is empty.\<close>

definition ex_state :: state where
  "ex_state = \<lparr>nodes = (\<lambda>a. cleared_node)
      (1 := cleared_node\<lparr>type := cJSON_Array, child := 2\<rparr>,
       2 := cleared_node\<lparr>type := cJSON_NULL, next := 3\<rparr>,
       3 := cleared_node\<lparr>type := cJSON_True, next := 4\<rparr>,
       4 := cleared_node\<lparr>type := cJSON_False\<rparr>,
       9 := cleared_node\<lparr>type := cJSON_Array\<rparr>),
     hp = \<lparr>blocks = (\<lambda>a. None), released = [], brk = 9, avail = 0, ub = False\<rparr>\<rparr>"


text \<open>
  The addresses teardown may hand to the release function: a node, the text of an owned
  string node, and a key that is not marked as constant.
\<close>

definition may_release :: "(ptr \<Rightarrow> cJSON) \<Rightarrow> ptr \<Rightarrow> bool" where
  "may_release ns x =
     (\<exists>n. n \<noteq> NULL \<and>
        (x = n
         \<or> (x = value_string (ns n) \<and> \<not> is_reference (ns n) \<and> type (ns n) = cJSON_String)
         \<or> (x = name (ns n) \<and> \<not> string_is_const (ns n))))"

definition released_only :: "state \<Rightarrow> state \<Rightarrow> bool" where
  "released_only s s' =
     (nodes s' = nodes s \<and>
      (\<exists>xs. released (hp s') = released (hp s) @ xs \<and> (\<forall>x \<in> set xs. may_release (nodes s) x)))"


section \<open>Parser\<close>

subsection \<open>Input text and results\<close>

text \<open>
  The input is a C string: the characters \<open>t\<close> followed by the terminating NUL. A
  \<open>const char *\<close> into it is an index. Reading at an index up to \<open>length t\<close> is a read of
  the string or of its terminator; reading beyond is outside the input.

  A function of the parser returns a value (\<open>Ret\<close>), or returns \<open>NULL\<close> (\<open>Null\<close>), or reads
  outside the input (\<open>Fault\<close>), or, for the functions defined with a bound on the calls,
  exceeds the bound (\<open>Timeout\<close>). The error position \<open>*ep\<close> is only ever assigned
  immediately before a \<open>return NULL\<close>, so it travels with \<open>Null\<close>: \<open>Null (Some p)\<close> is
  \<open>*ep = p; return NULL\<close> and \<open>Null None\<close> is a \<open>return NULL\<close> that leaves \<open>*ep\<close> as it was.
\<close>

datatype 'a result = Ret 'a | Null "nat option" | Fault | Timeout

fun rbind :: "'a result \<Rightarrow> ('a \<Rightarrow> 'b result) \<Rightarrow> 'b result" where
  "rbind (Ret x) f = f x"
| "rbind (Null e) f = Null e"
| "rbind Fault f = Fault"
| "rbind Timeout f = Timeout"

lemma rbind_cong [fundef_cong]:
  "m = m' \<Longrightarrow> (\<And>x. m' = Ret x \<Longrightarrow> f x = f' x) \<Longrightarrow> rbind m f = rbind m' f'"
  by (cases m') simp_all

lemma rbind_eq_Ret: "(rbind m f = Ret y) = (\<exists>x. m = Ret x \<and> f x = Ret y)"
  by (cases m) simp_all

definition NUL :: char where
  "NUL = CHR 0x00"

definition dquote :: char where
  "dquote = CHR 0x22"

definition backslash :: char where
  "backslash = CHR 0x5C"

definition peek :: "string \<Rightarrow> nat \<Rightarrow> char result" where
  "peek t i = (if i < length t then Ret (t ! i) else if i = length t then Ret NUL else Fault)"

subsection \<open>\<open>parse_hex4\<close> and the UTF-8 encoding\<close>

text \<open>One hexadecimal digit of \<open>parse_hex4\<close>: its value, or \<open>None\<close> for the \<open>invalid\<close> branch.\<close>

definition hex_digit :: "char \<Rightarrow> 32 word option" where
  "hex_digit c =
     (if CHR ''0'' \<le> c \<and> c \<le> CHR ''9'' then Some (of_char c - of_char (CHR ''0''))
      else if CHR ''A'' \<le> c \<and> c \<le> CHR ''F'' then Some (10 + of_char c - of_char (CHR ''A''))
      else if CHR ''a'' \<le> c \<and> c \<le> CHR ''f'' then Some (10 + of_char c - of_char (CHR ''a''))
      else None)"

definition parse_hex4 :: "string \<Rightarrow> nat \<Rightarrow> 32 word result" where
  "parse_hex4 t str =
     rbind (peek t str) (\<lambda>c0.
       case hex_digit c0 of None \<Rightarrow> Ret 0 | Some d0 \<Rightarrow>
       rbind (peek t (str + 1)) (\<lambda>c1.
         case hex_digit c1 of None \<Rightarrow> Ret 0 | Some d1 \<Rightarrow>
         rbind (peek t (str + 2)) (\<lambda>c2.
           case hex_digit c2 of None \<Rightarrow> Ret 0 | Some d2 \<Rightarrow>
           rbind (peek t (str + 3)) (\<lambda>c3.
             case hex_digit c3 of None \<Rightarrow> Ret 0 | Some d3 \<Rightarrow>
               Ret (push_bit 4 (push_bit 4 (push_bit 4 (0 + d0) + d1) + d2) + d3)))))"

definition firstByteMark :: "32 word list" where
  "firstByteMark = [0x00, 0x00, 0xC0, 0xE0, 0xF0, 0xF8, 0xFC]"

text \<open>The conversion of an \<open>unsigned\<close> to the \<open>char\<close> stored through \<open>ptr2\<close>.\<close>

definition to_char :: "32 word \<Rightarrow> char" where
  "to_char w = char_of (unat w)"

text \<open>
  The length selection and the \<open>switch\<close> with fall-through that writes the bytes of a code
  point from the last to the first.
\<close>

definition utf8_length :: "32 word \<Rightarrow> nat" where
  "utf8_length uc = (if uc < 0x80 then 1 else if uc < 0x800 then 2 else if uc < 0x10000 then 3 else 4)"

fun utf8_bytes :: "nat \<Rightarrow> nat \<Rightarrow> 32 word \<Rightarrow> string" where
  "utf8_bytes len 0 uc = []"
| "utf8_bytes len (Suc 0) uc = [to_char (uc OR firstByteMark ! len)]"
| "utf8_bytes len (Suc n) uc = utf8_bytes len n (drop_bit 6 uc) @ [to_char ((uc OR 0x80) AND 0xBF)]"

definition utf8_encode :: "32 word \<Rightarrow> string" where
  "utf8_encode uc = utf8_bytes (utf8_length uc) (utf8_length uc) uc"

subsection \<open>\<open>parse_string\<close>\<close>

text \<open>
  The first loop: it advances \<open>end_ptr\<close> to the closing quote or to the terminator and
  counts the characters in \<open>len\<close>, and returns \<open>NULL\<close> when a backslash is the last
  character of the input.
\<close>

function scan_string :: "string \<Rightarrow> nat \<Rightarrow> nat \<Rightarrow> (nat \<times> nat) result" where
  "scan_string t end_ptr len =
     rbind (peek t end_ptr) (\<lambda>c.
       if c \<noteq> dquote \<and> c \<noteq> NUL
       then
         if c = backslash
         then rbind (peek t (end_ptr + 1)) (\<lambda>c'.
                if c' = NUL then Null None
                else scan_string t (end_ptr + 2) (len + 1))
         else scan_string t (end_ptr + 1) (len + 1)
       else Ret (end_ptr, len))"
  by pat_completeness auto
termination
  by (relation "measure (\<lambda>(t, end_ptr, len). Suc (length t) - end_ptr)")
     (auto simp add: peek_def NUL_def split: if_splits)

declare scan_string.simps [simp del]

text \<open>The single-character escapes of the \<open>switch\<close>: the character written for each.\<close>

definition simple_escape :: "char \<Rightarrow> char option" where
  "simple_escape c =
     (if c = CHR ''b'' then Some (CHR 0x08)
      else if c = CHR ''f'' then Some (CHR 0x0C)
      else if c = CHR ''n'' then Some (CHR 0x0A)
      else if c = CHR ''r'' then Some (CHR 0x0D)
      else if c = CHR ''t'' then Some (CHR 0x09)
      else if c = dquote \<or> c = backslash \<or> c = CHR ''/'' then Some c
      else None)"

text \<open>
  The branch \<open>case 'u'\<close>, entered with \<open>ptr0\<close> at the \<open>u\<close>: it returns the position of the
  last character of the escape and the bytes written, or fails with \<open>*ep = str\<close>.
  \<open>surrogate_pair\<close> is the block for a first quartet in the high-surrogate range, entered
  with \<open>ptr\<close> at the last digit of that quartet.
\<close>

definition surrogate_pair :: "string \<Rightarrow> nat \<Rightarrow> nat \<Rightarrow> nat \<Rightarrow> 32 word \<Rightarrow> (nat \<times> string) result" where
  "surrogate_pair t str end_ptr ptr uc =
     (if ptr + 6 > end_ptr then Null (Some str)
      else
        rbind (peek t (ptr + 1)) (\<lambda>c1.
          if c1 \<noteq> backslash then Null (Some str)
          else
            rbind (peek t (ptr + 2)) (\<lambda>c2.
              if c2 \<noteq> CHR ''u'' then Null (Some str)
              else
                rbind (parse_hex4 t (ptr + 3)) (\<lambda>uc2.
                  if uc2 < 0xDC00 \<or> uc2 > 0xDFFF then Null (Some str)
                  else Ret (ptr + 6,
                    utf8_encode (0x10000 + (push_bit 10 (uc AND 0x3FF) OR (uc2 AND 0x3FF))))))))"

definition escape_u :: "string \<Rightarrow> nat \<Rightarrow> nat \<Rightarrow> nat \<Rightarrow> (nat \<times> string) result" where
  "escape_u t str end_ptr ptr0 =
     rbind (parse_hex4 t (ptr0 + 1)) (\<lambda>uc.
       if ptr0 + 4 \<ge> end_ptr then Null (Some str)
       else if (uc \<ge> 0xDC00 \<and> uc \<le> 0xDFFF) \<or> uc = 0 then Null (Some str)
       else if uc \<ge> 0xD800 \<and> uc \<le> 0xDBFF then surrogate_pair t str end_ptr (ptr0 + 4) uc
       else Ret (ptr0 + 4, utf8_encode uc))"

lemma surrogate_pair_advances:
  "surrogate_pair t str end_ptr ptr uc = Ret (ptr', bytes) \<Longrightarrow> ptr < ptr'"
  by (auto simp add: surrogate_pair_def rbind_eq_Ret split: if_splits)

lemma escape_u_advances:
  "escape_u t str end_ptr ptr0 = Ret (ptr, bytes) \<Longrightarrow> ptr0 < ptr"
  by (auto simp add: escape_u_def rbind_eq_Ret split: if_splits dest: surrogate_pair_advances)

text \<open>The second loop, which decodes the literal into \<open>out\<close>, and the code after it.\<close>

function decode_string :: "string \<Rightarrow> nat \<Rightarrow> nat \<Rightarrow> nat \<Rightarrow> string \<Rightarrow> (string \<times> nat) result" where
  "decode_string t str end_ptr ptr out =
     (if ptr < end_ptr
      then
        rbind (peek t ptr) (\<lambda>c.
          if c \<noteq> backslash then decode_string t str end_ptr (ptr + 1) (out @ [c])
          else
            rbind (peek t (ptr + 1)) (\<lambda>e.
              case simple_escape e of
                Some b \<Rightarrow> decode_string t str end_ptr (ptr + 2) (out @ [b])
              | None \<Rightarrow>
                  if e = CHR ''u''
                  then
                    (case escape_u t str end_ptr (ptr + 1) of
                       Ret (ptr', bytes) \<Rightarrow> decode_string t str end_ptr (ptr' + 1) (out @ bytes)
                     | Null e \<Rightarrow> Null e
                     | Fault \<Rightarrow> Fault
                     | Timeout \<Rightarrow> Timeout)
                  else Null (Some str)))
      else
        rbind (peek t ptr) (\<lambda>c. Ret (out, if c = dquote then ptr + 1 else ptr)))"
  by pat_completeness auto
termination
  by (relation "measure (\<lambda>(t, str, end_ptr, ptr, out). end_ptr - ptr)")
     (auto dest: escape_u_advances)

declare decode_string.simps [simp del]

text \<open>
  \<open>parse_string\<close> returns the decoded text (stored in \<open>item->value.string\<close>) and the
  position after the literal. The allocation of \<open>out\<close> is taken to succeed.
\<close>

definition parse_string :: "string \<Rightarrow> nat \<Rightarrow> (string \<times> nat) result" where
  "parse_string t str =
     rbind (peek t str) (\<lambda>c.
       if c \<noteq> dquote then Null (Some str)
       else
         rbind (scan_string t (str + 1) 0) (\<lambda>(end_ptr, len).
           decode_string t str end_ptr (str + 1) []))"


subsection \<open>Auxiliary notions for the properties of \<open>parse_string\<close>\<close>

text \<open>
  \<open>reach t p e\<close>: the first loop, started at \<open>p\<close>, stops at \<open>e\<close>. A plain character is one
  that neither ends the literal nor starts an escape. \<open>body_tokens\<close> recognises a literal
  body made of plain characters and of backslash-character pairs, that is, a body in
  which a backslash appended at the end is unescaped. \<open>followed_by_low t q\<close>: at \<open>q\<close> the
  text continues with \<open>\u\<close> and a quartet in the low-surrogate range.
\<close>

definition reach :: "string \<Rightarrow> nat \<Rightarrow> nat \<Rightarrow> bool" where
  "reach t p e = (\<exists>len l. scan_string t p len = Ret (e, l))"

definition plain :: "char \<Rightarrow> bool" where
  "plain c = (c \<noteq> dquote \<and> c \<noteq> backslash \<and> c \<noteq> NUL)"

fun body_tokens :: "string \<Rightarrow> bool" where
  "body_tokens [] = True"
| "body_tokens [c] = plain c"
| "body_tokens (c # d # cs) =
     (if c = backslash then d \<noteq> NUL \<and> body_tokens cs else plain c \<and> body_tokens (d # cs))"



text \<open>
  The tokens of a literal body that the second loop consumes whole and accepts: a plain
  character; a backslash with one of the single-character escapes; \<open>\u\<close> with a quartet
  that is neither zero nor a surrogate; \<open>\u\<close> with a high-surrogate quartet immediately
  followed by \<open>\u\<close> with a low-surrogate quartet. A quartet is four characters and its
  value is the one \<open>parse_hex4\<close> computes. \<open>tokens_text\<close> is the text of a sequence of
  tokens and \<open>tokens_bytes\<close> what the loop writes for it.
\<close>

datatype token = Plain char | Escape char | Unicode string | Surrogates string string








subsection \<open>Trees as values\<close>

text \<open>
  The parser and the composer are modelled over the tree as a value: a node carries the
  fields of \<open>struct cJSON\<close>, with the child chain as the list of the children and the texts
  \<open>value.string\<close> and \<open>name\<close> as optional strings (\<open>None\<close> for \<open>NULL\<close>).
\<close>

datatype item = Item
  (i_type: cJSON_type)
  (i_string: "string option")
  (i_number: double)
  (i_boolean: bool)
  (i_name: "string option")
  (i_child: "item list")

definition new_item :: item where
  "new_item = Item cJSON_Cleared None (Fin 0) False None []"

definition set_name :: "string option \<Rightarrow> item \<Rightarrow> item" where
  "set_name n it = Item (i_type it) (i_string it) (i_number it) (i_boolean it) n (i_child it)"

subsection \<open>\<open>skip\<close>, \<open>parse_number\<close> and the recursive descent\<close>

function skip :: "string \<Rightarrow> nat \<Rightarrow> nat result" where
  "skip t inp =
     rbind (peek t inp) (\<lambda>c.
       if c \<noteq> NUL \<and> (of_char c :: nat) \<le> 32 then skip t (inp + 1) else Ret inp)"
  by pat_completeness auto
termination
  by (relation "measure (\<lambda>(t, inp). Suc (length t) - inp)")
     (auto simp add: peek_def NUL_def split: if_splits)

declare skip.simps [simp del]

text \<open>
  \<open>strtod\<close> belongs to the C library: it is a parameter \<open>sd\<close> of the parser, which maps the
  text and a start position to the converted value and the end position (the start
  position itself when no conversion is performed).
\<close>

type_synonym strtod_fn = "string \<Rightarrow> nat \<Rightarrow> double \<times> nat"

definition parse_number :: "strtod_fn \<Rightarrow> string \<Rightarrow> nat \<Rightarrow> (item \<times> nat) result" where
  "parse_number sd t num =
     (let (number, endpointer) = sd t num in
      if num = endpointer then Null None
      else Ret (Item cJSON_Number None number False None [], endpointer))"

text \<open>\<open>strncmp(value, lit, n) == 0\<close> for a literal \<open>lit\<close> of \<open>n\<close> characters.\<close>

definition strncmp_eq :: "string \<Rightarrow> nat \<Rightarrow> string \<Rightarrow> bool" where
  "strncmp_eq t value lit = (take (length lit) (drop value t) = lit)"

text \<open>
  \<open>parse_value\<close>, \<open>parse_array\<close> and \<open>parse_object\<close> call each other. In the model
  \<open>parse_array\<close> and \<open>parse_object\<close> (with their loops over the elements) take the parser
  of the nested values as the argument \<open>pv\<close>, and \<open>parse_value\<close> passes itself for it. The
  first argument bounds the loop rounds and the depth of nesting; a call that exceeds it
  is a \<open>Timeout\<close>. The allocations of nodes are taken to succeed. The loops carry the
  children \<open>kids\<close> parsed so far; \<open>parse_member\<close> is the part of \<open>parse_object\<close> that parses
  one key with its value and moves the key from \<open>value.string\<close> to \<open>name\<close>.
\<close>

type_synonym value_parser = "nat \<Rightarrow> (item \<times> nat) result"

primrec parse_array_loop :: "nat \<Rightarrow> value_parser \<Rightarrow> string \<Rightarrow> item list \<Rightarrow> nat \<Rightarrow> (item list \<times> nat) result" where
  "parse_array_loop 0 pv t kids value = Timeout"
| "parse_array_loop (Suc n) pv t kids value =
     rbind (peek t value) (\<lambda>c.
       if c = CHR '',''
       then
         rbind (skip t (value + 1)) (\<lambda>v0.
         rbind (pv v0) (\<lambda>(new_kid, v1).
         rbind (skip t v1) (\<lambda>value.
           parse_array_loop n pv t (kids @ [new_kid]) value)))
       else Ret (kids, value))"

definition parse_array :: "nat \<Rightarrow> value_parser \<Rightarrow> string \<Rightarrow> nat \<Rightarrow> (item \<times> nat) result" where
  "parse_array n pv t value =
     rbind (peek t value) (\<lambda>c.
       if c \<noteq> CHR ''['' then Null (Some value)
       else
         rbind (skip t (value + 1)) (\<lambda>value.
           rbind (peek t value) (\<lambda>c.
             if c = CHR '']'' then Ret (Item cJSON_Array None (Fin 0) False None [], value + 1)
             else
               rbind (skip t value) (\<lambda>v0.
               rbind (pv v0) (\<lambda>(kid, v1).
               rbind (skip t v1) (\<lambda>value.
               rbind (parse_array_loop n pv t [kid] value) (\<lambda>(kids, value).
               rbind (peek t value) (\<lambda>c.
                 if c = CHR '']'' then Ret (Item cJSON_Array None (Fin 0) False None kids, value + 1)
                 else Null (Some value)))))))))"

definition parse_member :: "value_parser \<Rightarrow> string \<Rightarrow> nat \<Rightarrow> (item \<times> nat) result" where
  "parse_member pv t v0 =
     rbind (parse_string t v0) (\<lambda>(key, v1).
     rbind (skip t v1) (\<lambda>value.
     rbind (peek t value) (\<lambda>c.
       if c \<noteq> CHR '':'' then Null (Some value)
       else
         rbind (skip t (value + 1)) (\<lambda>v2.
         rbind (pv v2) (\<lambda>(kid, v3).
         rbind (skip t v3) (\<lambda>value.
           Ret (set_name (Some key) kid, value)))))))"

primrec parse_object_loop :: "nat \<Rightarrow> value_parser \<Rightarrow> string \<Rightarrow> item list \<Rightarrow> nat \<Rightarrow> (item list \<times> nat) result" where
  "parse_object_loop 0 pv t kids value = Timeout"
| "parse_object_loop (Suc n) pv t kids value =
     rbind (peek t value) (\<lambda>c.
       if c = CHR '',''
       then
         rbind (skip t (value + 1)) (\<lambda>v0.
         rbind (parse_member pv t v0) (\<lambda>(new_kid, value).
           parse_object_loop n pv t (kids @ [new_kid]) value))
       else Ret (kids, value))"

definition parse_object :: "nat \<Rightarrow> value_parser \<Rightarrow> string \<Rightarrow> nat \<Rightarrow> (item \<times> nat) result" where
  "parse_object n pv t value =
     rbind (peek t value) (\<lambda>c.
       if c \<noteq> CHR ''{'' then Null (Some value)
       else
         rbind (skip t (value + 1)) (\<lambda>value.
           rbind (peek t value) (\<lambda>c.
             if c = CHR ''}'' then Ret (Item cJSON_Object None (Fin 0) False None [], value + 1)
             else
               rbind (skip t value) (\<lambda>v0.
               rbind (parse_member pv t v0) (\<lambda>(kid, value).
               rbind (parse_object_loop n pv t [kid] value) (\<lambda>(kids, value).
               rbind (peek t value) (\<lambda>c.
                 if c = CHR ''}'' then Ret (Item cJSON_Object None (Fin 0) False None kids, value + 1)
                 else Null (Some value))))))))"

primrec parse_value :: "nat \<Rightarrow> strtod_fn \<Rightarrow> string \<Rightarrow> nat \<Rightarrow> (item \<times> nat) result" where
  "parse_value 0 sd t value = Timeout"
| "parse_value (Suc n) sd t value =
     rbind (peek t value) (\<lambda>c.
       if strncmp_eq t value ''null'' then Ret (Item cJSON_NULL None (Fin 0) False None [], value + 4)
       else if strncmp_eq t value ''false'' then Ret (Item cJSON_False None (Fin 0) False None [], value + 5)
       else if strncmp_eq t value ''true'' then Ret (Item cJSON_True None (Fin 0) True None [], value + 4)
       else if c = dquote
       then rbind (parse_string t value) (\<lambda>(out, e). Ret (Item cJSON_String (Some out) (Fin 0) False None [], e))
       else if c = CHR ''-'' \<or> (CHR ''0'' \<le> c \<and> c \<le> CHR ''9'') then parse_number sd t value
       else if c = CHR ''['' then parse_array n (parse_value n sd t) t value
       else if c = CHR ''{'' then parse_object n (parse_value n sd t) t value
       else Null (Some value))"

subsection \<open>\<open>cJSON_ParseWithOpts\<close> and the error slot\<close>

text \<open>
  The result of a parse call: what the call returns, the content of the shared slot
  \<open>global_ep\<close> after the call, and the content of the caller's slot \<open>*return_parse_end\<close>
  after the call when the caller supplied one. The error position goes to the caller's
  slot when there is one and to the shared slot otherwise; the slot is cleared first.
  The bound on the calls is taken from the length of the text.
\<close>

record parse_outcome =
  returned :: "item result"
  global_ep :: "nat option"
  return_parse_end :: "nat option"

definition store_ep :: "bool \<Rightarrow> nat option \<Rightarrow> nat option \<Rightarrow> item result \<Rightarrow> parse_outcome" where
  "store_ep own old_global ep r =
     (if own then \<lparr>returned = r, global_ep = old_global, return_parse_end = ep\<rparr>
      else \<lparr>returned = r, global_ep = ep, return_parse_end = None\<rparr>)"

definition cJSON_ParseWithOpts ::
  "strtod_fn \<Rightarrow> nat option \<Rightarrow> string \<Rightarrow> bool \<Rightarrow> bool \<Rightarrow> parse_outcome" where
  "cJSON_ParseWithOpts sd old_global t own require_null_terminated =
     (case rbind (skip t 0) (parse_value (length t + 2) sd t) of
        Null ep \<Rightarrow> store_ep own old_global ep (Null ep)
      | Fault \<Rightarrow> store_ep own old_global None Fault
      | Timeout \<Rightarrow> store_ep own old_global None Timeout
      | Ret (c, e) \<Rightarrow>
          if require_null_terminated
          then
            (case rbind (skip t e) (\<lambda>e'. rbind (peek t e') (\<lambda>ch. Ret (e', ch))) of
               Ret (e', ch) \<Rightarrow>
                 if ch \<noteq> NUL then store_ep own old_global (Some e') (Null (Some e'))
                 else store_ep own old_global (if own then Some e' else None) (Ret c)
             | Null ep \<Rightarrow> store_ep own old_global ep (Null ep)
             | Fault \<Rightarrow> store_ep own old_global None Fault
             | Timeout \<Rightarrow> store_ep own old_global None Timeout)
          else store_ep own old_global (if own then Some e else None) (Ret c))"

definition cJSON_Parse :: "strtod_fn \<Rightarrow> nat option \<Rightarrow> string \<Rightarrow> parse_outcome" where
  "cJSON_Parse sd old_global t = cJSON_ParseWithOpts sd old_global t False False"

definition cJSON_GetErrorPtr :: "parse_outcome \<Rightarrow> nat option" where
  "cJSON_GetErrorPtr s = global_ep s"

section \<open>Composer\<close>

text \<open>
  The composer in its unbuffered mode (\<open>cJSON_Print\<close>, \<open>cJSON_PrintUnformatted\<close>): every
  function returns the text of the fresh allocation it fills, or \<open>None\<close> for \<open>NULL\<close>. The
  allocations are taken to succeed.
\<close>

subsection \<open>\<open>print_string_ptr\<close>\<close>

text \<open>The characters of a C string: those before the first NUL.\<close>

definition c_str :: "string \<Rightarrow> string" where
  "c_str s = takeWhile (\<lambda>c. c \<noteq> NUL) s"

text \<open>The test of the first loop, with \<open>*ptr\<close> a \<open>char\<close>: a character from 1 to 31, a quote, a backslash.\<close>

definition needs_escape :: "char \<Rightarrow> bool" where
  "needs_escape c = ((0 < (of_char c :: nat) \<and> (of_char c :: nat) < 32) \<or> c = dquote \<or> c = backslash)"

definition hex_char :: "nat \<Rightarrow> char" where
  "hex_char n = ''0123456789abcdef'' ! n"

text \<open>\<open>sprintf(ptr2, "u%04x", token)\<close> for a token below 256.\<close>

definition sprintf_u04x :: "nat \<Rightarrow> string" where
  "sprintf_u04x token = [CHR ''u'', CHR ''0'', CHR ''0'', hex_char (token div 16), hex_char (token mod 16)]"

text \<open>One round of the copying loop: the characters written for the character \<open>c\<close>.\<close>

definition escape_char :: "char \<Rightarrow> string" where
  "escape_char c =
     (if (of_char c :: nat) > 31 \<and> c \<noteq> dquote \<and> c \<noteq> backslash then [c]
      else backslash #
        (if c = backslash then [backslash]
         else if c = dquote then [dquote]
         else if c = CHR 0x08 then ''b''
         else if c = CHR 0x0C then ''f''
         else if c = CHR 0x0A then ''n''
         else if c = CHR 0x0D then ''r''
         else if c = CHR 0x09 then ''t''
         else sprintf_u04x (of_char c)))"

definition print_string_ptr :: "string option \<Rightarrow> string" where
  "print_string_ptr str =
     (case str of
        None \<Rightarrow> [dquote, dquote]
      | Some s \<Rightarrow>
          if \<not> (\<exists>c \<in> set (c_str s). needs_escape c)
          then dquote # c_str s @ [dquote]
          else dquote # concat (map escape_char (c_str s)) @ [dquote])"

subsection \<open>\<open>print_array\<close>, \<open>print_object\<close> and \<open>print_value\<close>\<close>

text \<open>
  \<open>print_array\<close> and \<open>print_object\<close> first print every child into \<open>entries\<close> (and every key
  into \<open>names\<close>), fail if one of them failed, and then compose the output in a loop over
  the entries. In the model they receive the printed children from \<open>print_value\<close>.
\<close>

fun array_entries :: "bool \<Rightarrow> string list \<Rightarrow> string" where
  "array_entries fmt [] = []"
| "array_entries fmt (e # rest) =
     e @ (if rest \<noteq> [] then '','' @ (if fmt then '' '' else []) else [])
     @ array_entries fmt rest"

definition print_array :: "string option list \<Rightarrow> bool \<Rightarrow> string option" where
  "print_array entries fmt =
     (if entries = [] then Some ''[]''
      else if None \<in> set entries then None
      else Some (''['' @ array_entries fmt (map the entries) @ '']''))"

definition tab :: char where
  "tab = CHR 0x09"

definition newline :: char where
  "newline = CHR 0x0A"

fun object_entries :: "bool \<Rightarrow> nat \<Rightarrow> (string \<times> string) list \<Rightarrow> string" where
  "object_entries fmt depth [] = []"
| "object_entries fmt depth ((nm, e) # rest) =
     (if fmt then replicate depth tab else [])
     @ nm @ '':'' @ (if fmt then [tab] else [])
     @ e @ (if rest \<noteq> [] then '','' else [])
     @ (if fmt then [newline] else [])
     @ object_entries fmt depth rest"

definition print_object :: "string list \<Rightarrow> string option list \<Rightarrow> nat \<Rightarrow> bool \<Rightarrow> string option" where
  "print_object names entries depth fmt =
     (if entries = []
      then Some (''{'' @ (if fmt then newline # replicate depth tab else []) @ ''}'')
      else if None \<in> set entries then None
      else Some (''{'' @ (if fmt then [newline] else [])
                 @ object_entries fmt (depth + 1) (zip names (map the entries))
                 @ (if fmt then replicate (depth + 1 - 1) tab else [])
                 @ ''}''))"

primrec print_value :: "item \<Rightarrow> nat \<Rightarrow> bool \<Rightarrow> string option" where
  "print_value (Item ty str num b nm kids) depth fmt =
     (case ty of
        cJSON_NULL \<Rightarrow> Some ''null''
      | cJSON_False \<Rightarrow> Some ''false''
      | cJSON_True \<Rightarrow> Some ''true''
      | cJSON_Number \<Rightarrow> Some (print_number num)
      | cJSON_String \<Rightarrow> Some (print_string_ptr str)
      | cJSON_Array \<Rightarrow> print_array (map (\<lambda>k. print_value k (depth + 1) fmt) kids) fmt
      | cJSON_Object \<Rightarrow>
          print_object (map (\<lambda>k. print_string_ptr (i_name k)) kids)
            (map (\<lambda>k. print_value k (depth + 1) fmt) kids) depth fmt
      | cJSON_Cleared \<Rightarrow> None)"


definition cJSON_PrintUnformatted :: "item \<Rightarrow> string option" where
  "cJSON_PrintUnformatted it = print_value it 0 False"


subsection \<open>The format of an object, in closed form\<close>








section \<open>Composer, buffered mode\<close>

text \<open>
  With a \<open>printbuffer\<close> (\<open>cJSON_PrintBuffered\<close>) every function of the composer writes
  into the storage of the buffer, which \<open>ensure\<close> grows on demand, and returns a pointer
  to the text it wrote, or \<open>NULL\<close>. The functions are modelled on the heap of the section
  on the print buffer: each takes the structure \<open>*p\<close> and the heap and returns its result
  together with the structure and the heap it leaves.
\<close>

subsection \<open>Characters in memory\<close>

text \<open>
  \<open>store\<close> is the assignment \<open>*ptr = c\<close> and \<open>stores\<close> the assignments \<open>*ptr++ = c\<close> for
  the characters of a text in turn; a store outside a live block is undefined behaviour.
  \<open>strlen\<close> counts the characters before the first NUL; it is undefined (\<open>None\<close>) when it
  reads a byte that was never written or runs off the block. \<open>c_string\<close> is the text of
  the C string at a pointer.
\<close>

definition store :: "heap \<Rightarrow> ptr \<times> nat \<Rightarrow> char \<Rightarrow> heap" where
  "store h r c =
     (case blocks h (fst r) of
        None \<Rightarrow> h\<lparr>ub := True\<rparr>
      | Some bs \<Rightarrow>
          if snd r < length bs then h\<lparr>blocks := (blocks h)(fst r \<mapsto> bs[snd r := Some c])\<rparr>
          else h\<lparr>ub := True\<rparr>)"

fun stores :: "heap \<Rightarrow> ptr \<times> nat \<Rightarrow> string \<Rightarrow> heap" where
  "stores h r [] = h"
| "stores h r (c # cs) = stores (store h r c) (fst r, Suc (snd r)) cs"

fun strlen_bytes :: "char option list \<Rightarrow> nat option" where
  "strlen_bytes [] = None"
| "strlen_bytes (None # bs) = None"
| "strlen_bytes (Some c # bs) = (if c = NUL then Some 0 else map_option Suc (strlen_bytes bs))"

definition strlen :: "heap \<Rightarrow> ptr \<times> nat \<Rightarrow> nat option" where
  "strlen h r = strlen_bytes (region h r)"

definition c_string :: "heap \<Rightarrow> ptr \<times> nat \<Rightarrow> string option" where
  "c_string h r = map_option (\<lambda>n. map the (take n (region h r))) (strlen h r)"

subsection \<open>\<open>ensure\<close> and \<open>update\<close> on the buffer of the composer\<close>

text \<open>
  The composer calls \<open>ensure\<close> with a pointer \<open>p\<close> that is not \<open>NULL\<close>: \<open>ensure_p\<close> is
  \<open>ensure\<close> with the structure \<open>*p\<close> after the call. \<open>set_offset\<close> is an assignment to
  \<open>p->offset\<close>. \<open>update\<close> returns the offset of the terminator of the string that starts at
  the current offset.
\<close>

type_synonym 'a printer = "'a printbuffer \<Rightarrow> heap \<Rightarrow> (ptr \<times> nat) option \<times> 'a printbuffer \<times> heap"

definition ensure_p ::
  "'a::len printbuffer \<Rightarrow> 'a word \<Rightarrow> heap \<Rightarrow> (ptr \<times> nat) option \<times> 'a printbuffer \<times> heap" where
  "ensure_p pb needed h =
     (case ensure (Some pb) needed h of
        (r, p', h') \<Rightarrow> (r, (case p' of None \<Rightarrow> pb | Some pb' \<Rightarrow> pb'), h'))"

definition set_offset :: "'a::len printbuffer \<Rightarrow> 'a word \<Rightarrow> 'a printbuffer" where
  "set_offset pb off = Printbuffer (buffer pb) (length_p pb) off"

definition update :: "'a::len printbuffer \<Rightarrow> heap \<Rightarrow> 'a word \<times> heap" where
  "update pb h =
     (if buffer pb = NULL then (0, h)
      else
        case strlen h (buffer pb, unat (offset pb)) of
          None \<Rightarrow> (offset pb, h\<lparr>ub := True\<rparr>)
        | Some n \<Rightarrow> (offset pb + of_nat n, h))"

text \<open>
  Two patterns recur in the buffered branches. \<open>put\<close> is
  \<open>out = ensure(p, needed); if (out) strcpy(out, text); return out;\<close> (also with \<open>sprintf\<close>
  or single stores in place of \<open>strcpy\<close>): the text and its terminator are stored at the
  pointer obtained and the offset is left as it is. \<open>emit\<close> is
  \<open>ptr = ensure(p, needed); if (!ptr) return NULL; *ptr++ = ...; p->offset += len;\<close>: the
  characters are stored at the pointer obtained and the offset advances by \<open>len\<close>; its
  first component tells whether \<open>ensure\<close> succeeded.
\<close>

definition put :: "'a::len printbuffer \<Rightarrow> heap \<Rightarrow> 'a word \<Rightarrow> string
    \<Rightarrow> (ptr \<times> nat) option \<times> 'a printbuffer \<times> heap" where
  "put pb h needed text =
     (case ensure_p pb needed h of
        (None, pb', h') \<Rightarrow> (None, pb', h')
      | (Some out, pb', h') \<Rightarrow> (Some out, pb', stores h' out (text @ [NUL])))"

definition emit :: "'a::len printbuffer \<Rightarrow> heap \<Rightarrow> 'a word \<Rightarrow> string \<Rightarrow> 'a word
    \<Rightarrow> bool \<times> 'a printbuffer \<times> heap" where
  "emit pb h needed bytes len =
     (case ensure_p pb needed h of
        (None, pb', h') \<Rightarrow> (False, pb', h')
      | (Some ptr, pb', h') \<Rightarrow> (True, set_offset pb' (offset pb' + len), stores h' ptr bytes))"

subsection \<open>\<open>print_number\<close> and \<open>print_string_ptr\<close> with a buffer\<close>

text \<open>
  \<open>print_number\<close> requests 2, 21 or 64 bytes according to its branch and writes the text
  of the number with \<open>strcpy\<close> or \<open>sprintf\<close>.
\<close>

definition print_number_b :: "double \<Rightarrow> 'a::len printer" where
  "print_number_b d pb h =
     put pb h
       (if d_eq d (Fin 0) then 2
        else if d_le (fabs (d_sub (d_floor d) d)) DBL_EPSILON
                \<and> d_le d (Fin (of_int INT_MAX)) \<and> d_ge d (Fin (of_int INT_MIN))
        then 21
        else 64)
       (print_number d)"

text \<open>
  \<open>print_string_ptr\<close> requests 3 bytes for a \<open>NULL\<close> string and \<open>len + 3\<close> bytes otherwise,
  where \<open>len\<close> is the length of the string if nothing has to be escaped and is counted by
  the loop over the tokens if something has: one for a token, one more for a token in
  the string given to \<open>strchr\<close>, five more for any other token below 32.
\<close>

definition strchr_escapes :: string where
  "strchr_escapes = [dquote, backslash, CHR 0x08, CHR 0x0C, CHR 0x0A, CHR 0x0D, CHR 0x09]"

definition escaped_length :: "string \<Rightarrow> 'a::len word" where
  "escaped_length s =
     foldl (\<lambda>len token.
              if token \<in> set strchr_escapes then len + 1 + 1
              else if (of_char token :: nat) < 32 then len + 1 + 5
              else len + 1)
       0 (c_str s)"

definition print_string_ptr_b :: "string option \<Rightarrow> 'a::len printer" where
  "print_string_ptr_b str pb h =
     (case str of
        None \<Rightarrow> put pb h 3 [dquote, dquote]
      | Some s \<Rightarrow>
          if \<not> (\<exists>c \<in> set (c_str s). needs_escape c)
          then put pb h (of_nat (length (c_str s)) + 3) (print_string_ptr str)
          else put pb h (escaped_length s + 3) (print_string_ptr str))"

subsection \<open>\<open>print_array\<close>, \<open>print_object\<close> and \<open>print_value\<close> with a buffer\<close>

text \<open>
  The buffered branches print the children in place, one after the other: after each
  call of \<open>print_value\<close> (whose result they do not test) they move the offset to the end of
  what it wrote with \<open>update\<close>. In the model they receive the printers of the children.
  \<open>depth\<close> is a \<open>size_t\<close>; it is kept as a natural number, as in the unbuffered mode, and
  converted where it is a request to \<open>ensure\<close>.
\<close>

fun print_array_loop_b ::
  "bool \<Rightarrow> 'a::len printer list \<Rightarrow> 'a printbuffer \<Rightarrow> heap \<Rightarrow> bool \<times> 'a printbuffer \<times> heap" where
  "print_array_loop_b fmt [] pb h = (True, pb, h)"
| "print_array_loop_b fmt (pv # rest) pb h =
     (case pv pb h of (out, pb1, h1) \<Rightarrow>
      case update pb1 h1 of (off, h2) \<Rightarrow>
        if rest \<noteq> []
        then
          (case emit (set_offset pb1 off) h2 ((if fmt then 2 else 1) + 1)
                  ('','' @ (if fmt then '' '' else []) @ [NUL]) (if fmt then 2 else 1) of
             (False, pb3, h3) \<Rightarrow> (False, pb3, h3)
           | (True, pb3, h3) \<Rightarrow> print_array_loop_b fmt rest pb3 h3)
        else print_array_loop_b fmt rest (set_offset pb1 off) h2)"

definition print_array_b :: "'a::len printer list \<Rightarrow> bool \<Rightarrow> 'a printer" where
  "print_array_b entries fmt pb h =
     (if entries = [] then put pb h 3 ''[]''
      else
        let i = offset pb in
        case emit pb h 1 ''['' 1 of
          (False, pb1, h1) \<Rightarrow> (None, pb1, h1)
        | (True, pb1, h1) \<Rightarrow>
            (case print_array_loop_b fmt entries pb1 h1 of
               (False, pb2, h2) \<Rightarrow> (None, pb2, h2)
             | (True, pb2, h2) \<Rightarrow>
                 (case emit pb2 h2 2 ('']'' @ [NUL]) 0 of
                    (False, pb3, h3) \<Rightarrow> (None, pb3, h3)
                  | (True, pb3, h3) \<Rightarrow> (Some (buffer pb3, unat i), pb3, h3))))"

text \<open>
  The loop of \<open>print_object\<close> over the children, entered after \<open>depth++\<close>: the tabs, the
  key, the colon (and a tab), the value, the comma (and a newline).
\<close>

fun print_object_loop_b ::
  "bool \<Rightarrow> nat \<Rightarrow> (string option \<times> 'a::len printer) list \<Rightarrow> 'a printbuffer \<Rightarrow> heap
     \<Rightarrow> bool \<times> 'a printbuffer \<times> heap" where
  "print_object_loop_b fmt depth [] pb h = (True, pb, h)"
| "print_object_loop_b fmt depth ((nm, pv) # rest) pb h =
     (case (if fmt then emit pb h (of_nat depth) (replicate depth tab) (of_nat depth)
            else (True, pb, h)) of
        (False, pb1, h1) \<Rightarrow> (False, pb1, h1)
      | (True, pb1, h1) \<Rightarrow>
          (case print_string_ptr_b nm pb1 h1 of (out2, pb2, h2) \<Rightarrow>
           case update pb2 h2 of (off2, h2') \<Rightarrow>
           case emit (set_offset pb2 off2) h2' (if fmt then 2 else 1)
                  ('':'' @ (if fmt then [tab] else [])) (if fmt then 2 else 1) of
             (False, pb3, h3) \<Rightarrow> (False, pb3, h3)
           | (True, pb3, h3) \<Rightarrow>
               (case pv pb3 h3 of (out4, pb4, h4) \<Rightarrow>
                case update pb4 h4 of (off4, h4') \<Rightarrow>
                case emit (set_offset pb4 off4) h4'
                       ((if fmt then 1 else 0) + (if rest \<noteq> [] then 1 else 0) + 1)
                       ((if rest \<noteq> [] then '','' else []) @ (if fmt then [newline] else []) @ [NUL])
                       ((if fmt then 1 else 0) + (if rest \<noteq> [] then 1 else 0)) of
                  (False, pb5, h5) \<Rightarrow> (False, pb5, h5)
                | (True, pb5, h5) \<Rightarrow> print_object_loop_b fmt depth rest pb5 h5)))"

definition print_object_b ::
  "string option list \<Rightarrow> 'a::len printer list \<Rightarrow> nat \<Rightarrow> bool \<Rightarrow> 'a printer" where
  "print_object_b names entries depth fmt pb h =
     (if entries = []
      then put pb h (if fmt then of_nat depth + 4 else 3)
             (''{'' @ (if fmt then newline # replicate depth tab else []) @ ''}'')
      else
        let i = offset pb in
        case emit pb h ((if fmt then 2 else 1) + 1)
               (''{'' @ (if fmt then [newline] else []) @ [NUL]) (if fmt then 2 else 1) of
          (False, pb1, h1) \<Rightarrow> (None, pb1, h1)
        | (True, pb1, h1) \<Rightarrow>
            (case print_object_loop_b fmt (depth + 1) (zip names entries) pb1 h1 of
               (False, pb2, h2) \<Rightarrow> (None, pb2, h2)
             | (True, pb2, h2) \<Rightarrow>
                 (case emit pb2 h2 (if fmt then of_nat (depth + 1) + 1 else 2)
                         ((if fmt then replicate (depth + 1 - 1) tab else []) @ ''}'' @ [NUL]) 0 of
                    (False, pb3, h3) \<Rightarrow> (None, pb3, h3)
                  | (True, pb3, h3) \<Rightarrow> (Some (buffer pb3, unat i), pb3, h3))))"

primrec print_value_b :: "item \<Rightarrow> nat \<Rightarrow> bool \<Rightarrow> 'a::len printer" where
  "print_value_b (Item ty str num b nm kids) depth fmt =
     (case ty of
        cJSON_NULL \<Rightarrow> (\<lambda>pb h. put pb h 5 ''null'')
      | cJSON_False \<Rightarrow> (\<lambda>pb h. put pb h 6 ''false'')
      | cJSON_True \<Rightarrow> (\<lambda>pb h. put pb h 5 ''true'')
      | cJSON_Number \<Rightarrow> print_number_b num
      | cJSON_String \<Rightarrow> print_string_ptr_b str
      | cJSON_Array \<Rightarrow> print_array_b (map (\<lambda>k. print_value_b k (depth + 1) fmt) kids) fmt
      | cJSON_Object \<Rightarrow>
          print_object_b (map i_name kids) (map (\<lambda>k. print_value_b k (depth + 1) fmt) kids) depth fmt
      | cJSON_Cleared \<Rightarrow> (\<lambda>pb h. (None, pb, h)))"

text \<open>
  \<open>cJSON_PrintBuffered\<close> acquires the initial storage of \<open>prebuffer\<close> bytes and prints the
  value at offset 0; the structure \<open>p\<close> is local to it.
\<close>

definition cJSON_PrintBuffered ::
  "item \<Rightarrow> 'a::len word \<Rightarrow> bool \<Rightarrow> heap \<Rightarrow> (ptr \<times> nat) option \<times> heap" where
  "cJSON_PrintBuffered it prebuffer fmt h =
     (case malloc_fn h (unat prebuffer) of (b, h1) \<Rightarrow>
        if b = NULL then (None, h1)
        else
          (case print_value_b it 0 fmt (Printbuffer b prebuffer 0) h1 of
             (out, pb, h2) \<Rightarrow> (out, h2)))"

subsection \<open>Auxiliary notions for the properties of the buffered composer\<close>

text \<open>
  \<open>buf_inv M h pb\<close>: the heap and the buffer are well formed and there is room for a
  buffer of \<open>M\<close> bytes to grow: twice \<open>M\<close> is in the range of \<open>size_t\<close>, and the allocator
  can still hand out the blocks of a growth to \<open>2 * M\<close> bytes. \<open>holds M h pb k txt\<close>: in
  addition the offset is \<open>k\<close> and the storage starts with the text \<open>txt\<close>, which reaches at
  least to the offset. \<open>prints M pv s\<close> is the contract of a printer of the text \<open>s\<close>: in
  such a state, with room for \<open>s\<close> and 64 bytes more, it returns the pointer at the offset
  it found, the storage then holds what was before the offset, \<open>s\<close> and a terminator, and
  the offset is left at the start of \<open>s\<close> or within it.
\<close>

definition buf_inv :: "nat \<Rightarrow> heap \<Rightarrow> 'a::len printbuffer \<Rightarrow> bool" where
  "buf_inv M h pb =
     (heap_ok h \<and> buffer_ok h pb \<and> 2 * M < 2 ^ LENGTH('a)
      \<and> 4 * M \<le> avail h + 2 * unat (length_p pb))"

definition holds :: "nat \<Rightarrow> heap \<Rightarrow> 'a::len printbuffer \<Rightarrow> nat \<Rightarrow> string \<Rightarrow> bool" where
  "holds M h pb k txt =
     (buf_inv M h pb \<and> unat (offset pb) = k \<and> k \<le> length txt
      \<and> length txt \<le> unat (length_p pb)
      \<and> take (length txt) (contents h (buffer pb)) = map Some txt)"

definition prints :: "nat \<Rightarrow> 'a::len printer \<Rightarrow> string \<Rightarrow> bool" where
  "prints M pv s =
     (\<forall>h pb k txt. holds M h pb k txt \<and> k + length s + 64 \<le> M \<longrightarrow>
        (\<exists>pb' h' k'. pv pb h = (Some (buffer pb', k), pb', h') \<and> k \<le> k' \<and> k' \<le> k + length s
           \<and> holds M h' pb' k' (take k txt @ s @ [NUL])))"

section \<open>Properties of the number codec\<close>

lemma char_of_nat_eval:
  "char_of (n::nat) = Char (odd n) (odd (n div 2)) (odd (n div 4)) (odd (n div 8))
      (odd (n div 16)) (odd (n div 32)) (odd (n div 64)) (odd (n div 128))"
  by (simp add: char_of_def bit_iff_odd)

lemmas print_number_defs =
  print_number_call_def spec_number_policy_def is_int_valued_def is_nan_or_inf_def
  DBL_EPSILON_def d_ne_def d_ge_def d_gt_def INT_MAX_def INT_MIN_def
  dbl_1e60_def dbl_1e_minus_6_def dbl_1e9_def

lemmas sprintf_defs =
  print_number_def int_of_double_def sprintf_d_def sprintf_f_def fixed_digits_def
  zero_pad_def round_half_even_def digit_char_def dec_digits.simps Let_def char_of_nat_eval

text \<open>
  C3, as the specification orders it, fails at an infinite value: the magnitude test
  for scientific notation comes before the NaN/infinity test in the specified order and
  accepts an infinity, whereas \<open>print_number\<close> tests for NaN and infinity first and
  writes \<open>null\<close>.
\<close>

theorem C3_ordered_policy_fails_at_infinity:
  "print_number_call PInf = Literal ''null'' \<and> spec_number_policy PInf = Fmt_e PInf"
  by (simp add: print_number_defs)

text \<open>
  The constants are the doubles nearest to the decimal values: each is a 53-bit
  significand times a power of two, within half a unit in the last place of the
  decimal value, and the two that are not exact lie below it.
\<close>

lemma double_literals:
  "dbl_1e60 = Fin (5605193857299268 * 2 ^ 147)
   \<and> (2::real) ^ 52 \<le> 5605193857299268 \<and> (5605193857299268::real) < 2 ^ 53
   \<and> \<bar>10 ^ 60 - 5605193857299268 * 2 ^ 147\<bar> \<le> (2::real) ^ 146
   \<and> d_lt dbl_1e60 (Fin (10 ^ 60))
   \<and> dbl_1e_minus_6 = Fin (4722366482869645 / 2 ^ 72)
   \<and> (2::real) ^ 52 \<le> 4722366482869645 \<and> (4722366482869645::real) < 2 ^ 53
   \<and> \<bar>1 / 10 ^ 6 - 4722366482869645 / 2 ^ 72\<bar> \<le> 1 / (2::real) ^ 73
   \<and> d_lt dbl_1e_minus_6 (Fin (1 / 10 ^ 6))
   \<and> dbl_1e9 = Fin (10 ^ 9)"
  by (simp add: dbl_1e60_def dbl_1e_minus_6_def dbl_1e9_def)

text \<open>
  C3, amended: \<open>print_number\<close> follows the specified ordered policy for every value that
  is not infinite (a NaN included, and with the boundary \<open>1e9\<close> itself never reaching the
  scientific test because it is integer-valued and within the \<open>int\<close> range); an infinite
  value is written as \<open>null\<close>, the NaN/infinity test being made before the tests for
  fixed-point without fraction and for scientific notation. The bounds are the doubles
  \<open>1.0e60\<close>, \<open>1.0e-6\<close> and \<open>1.0e9\<close>, and the tests on the first two are strict: the
  double \<open>1.0e60\<close> itself (and its negative) is written in scientific notation, the
  double \<open>1.0e-6\<close> itself in fixed-point with six decimals.
\<close>

theorem C3_print_number_policy:
  "print_number_call d = (if d = PInf \<or> d = NInf then Literal ''null'' else spec_number_policy d)
   \<and> print_number_call dbl_1e60 = Fmt_e dbl_1e60
   \<and> print_number_call (d_sub (Fin 0) dbl_1e60) = Fmt_e (d_sub (Fin 0) dbl_1e60)
   \<and> print_number_call dbl_1e_minus_6 = Fmt_f dbl_1e_minus_6
   \<and> print_number_call (d_sub (Fin 0) dbl_1e_minus_6) = Fmt_f (d_sub (Fin 0) dbl_1e_minus_6)
   \<and> print_number_call dbl_1e9 = Fmt_d 1000000000"
proof (intro conjI)
  show "print_number_call d = (if d = PInf \<or> d = NInf then Literal ''null'' else spec_number_policy d)"
  proof (cases d)
    case (Fin a)
    show ?thesis
    proof (cases "\<bar>a\<bar> = 10 ^ 9")
      case True
      then have "a = 10 ^ 9 \<or> a = - (10 ^ 9)" by linarith
      then show ?thesis using Fin by (auto simp add: print_number_defs)
    next
      case False
      then show ?thesis using Fin by (auto simp add: print_number_defs)
    qed
  qed (simp_all add: print_number_defs)
qed (simp_all add: print_number_defs int_of_double_def)

theorem C3_print_number_policy_witness:
  "print_number_call (Fin (1 / 2)) = Fmt_f (Fin (1 / 2))
   \<and> print_number_call (Fin (10 ^ 9)) = Fmt_d (10 ^ 9)
   \<and> print_number_call NInf = Literal ''null''"
  using C3_print_number_policy [of "Fin (1 / 2)", THEN conjunct1]
    C3_print_number_policy [of "Fin (10 ^ 9)", THEN conjunct1]
    C3_print_number_policy [of NInf, THEN conjunct1]
  by (simp add: spec_number_policy_def is_int_valued_def is_nan_or_inf_def DBL_EPSILON_def
      d_ge_def INT_MAX_def INT_MIN_def int_of_double_def dbl_1e60_def dbl_1e_minus_6_def
      dbl_1e9_def)

text \<open>
  C4, as stated, fails at \<open>1e20\<close>: the value is integer-valued and below \<open>1e60\<close>, so it is
  written by \<open>%.0f\<close> as twenty-one digits, not in scientific notation.
\<close>

theorem C4_1e20_is_not_scientific:
  "print_number_call (Fin (10 ^ 20)) \<noteq> Fmt_e (Fin (10 ^ 20))
   \<and> CHR ''e'' \<notin> set (print_number (Fin (10 ^ 20)))"
  by (simp add: print_number_defs sprintf_defs)

text \<open>
  C4, amended: serializing \<open>3.0\<close> yields \<open>3\<close>; serializing \<open>0.1\<close> (the decimal value, and
  also the double nearest to it) yields \<open>0.100000\<close>; serializing \<open>1e20\<close> yields the
  fixed-point text \<open>100000000000000000000\<close> without fraction digits; serializing NaN
  yields \<open>null\<close>.
\<close>

theorem C4_number_boundaries:
  "print_number (Fin 3) = ''3''
   \<and> print_number (Fin (1 / 10)) = ''0.100000''
   \<and> print_number (Fin (3602879701896397 / 2 ^ 55)) = ''0.100000''
   \<and> print_number (Fin (10 ^ 20)) = ''100000000000000000000''
   \<and> print_number_call (Fin (10 ^ 20)) = Fmt_0f (Fin (10 ^ 20))
   \<and> print_number NaN = ''null''"
  by (simp add: print_number_defs sprintf_defs)

section \<open>Properties of the growable print buffer\<close>

lemma double_mod:
  fixes m N :: nat
  assumes "m < N"
  shows "(m * 2) mod N = (if N \<le> m * 2 then m * 2 - N else m * 2)"
proof (cases "N \<le> m * 2")
  case True
  then have "(m * 2) mod N = (m * 2 - N) mod N" by (rule le_mod_geq)
  also have "\<dots> = m * 2 - N" using assms by (intro mod_less) linarith
  finally show ?thesis using True by simp
next
  case False
  then show ?thesis by simp
qed

lemma double_mod_gt:
  fixes m N :: nat
  assumes "m < N" "m < (m * 2) mod N"
  shows "(m * 2) mod N = 2 * m"
  using assms double_mod [of m N] by (auto split: if_splits)

lemma double_mod_wrap:
  fixes m N :: nat
  assumes "m < N" "N \<le> 2 * m"
  shows "(m * 2) mod N \<le> m"
  using assms double_mod [of m N] by (auto split: if_splits)

lemma unat_double:
  fixes x :: "'a::len word"
  shows "unat (x * 2) = (unat x * 2) mod 2 ^ LENGTH('a)"
proof -
  have "x * 2 = x + x" by simp
  then have "unat (x * 2) = (unat x + unat x) mod 2 ^ LENGTH('a)"
    by (simp only: unat_word_ariths)
  then show ?thesis by (simp add: mult_2_right)
qed

lemma unat_double_gt:
  fixes x :: "'a::len word"
  assumes "\<not> x * 2 \<le> x"
  shows "unat (x * 2) = 2 * unat x"
proof -
  from assms have "unat x < unat (x * 2)" by (simp add: word_le_nat_alt)
  then have "unat x < (unat x * 2) mod 2 ^ LENGTH('a)" by (simp only: unat_double)
  then have "(unat x * 2) mod 2 ^ LENGTH('a) = 2 * unat x"
    by (rule double_mod_gt [OF unsigned_less])
  then show ?thesis by (simp only: unat_double)
qed

lemma unat_double_wrap:
  fixes x :: "'a::len word"
  assumes "2 ^ LENGTH('a) \<le> 2 * unat x"
  shows "x * 2 \<le> x"
proof -
  have "(unat x * 2) mod 2 ^ LENGTH('a) \<le> unat x"
    by (rule double_mod_wrap [OF unsigned_less assms])
  then have "unat (x * 2) \<le> unat x" by (simp only: unat_double)
  then show ?thesis by (simp add: word_le_nat_alt)
qed

lemmas pb_defs = buffer_def length_p_def offset_def Printbuffer_def

lemma ensure_in_place:
  assumes "buffer pb \<noteq> NULL" "n + offset pb \<le> length_p pb"
  shows "ensure (Some pb) n h = (Some (buffer pb, unat (offset pb)), Some pb, h)"
  using assms by (simp add: ensure_def Let_def)

lemma max_needed:
  fixes a b :: "'a::len word"
  assumes "\<not> b \<le> a"
  shows "max a b = b"
proof -
  from assms have "a \<le> b" by simp
  then show ?thesis by (rule max_absorb2)
qed

lemma ensure_unfold:
  "ensure (Some pb) n h =
     (if buffer pb = NULL then (None, Some pb, h)
      else if n + offset pb \<le> length_p pb then (Some (buffer pb, unat (offset pb)), Some pb, h)
      else if (n + offset pb) * 2 \<le> n + offset pb then (None, Some pb, h)
      else if unat ((n + offset pb) * 2) \<le> avail h
      then (Some (Suc (brk h), unat (offset pb)),
            Some (Printbuffer (Suc (brk h)) ((n + offset pb) * 2) (offset pb)),
            free_fn (memcpy (snd (malloc_fn h (unat ((n + offset pb) * 2)))) (Suc (brk h))
               (buffer pb) (unat (length_p pb))) (buffer pb))
      else (None, Some (Printbuffer NULL 0 (offset pb)), free_fn h (buffer pb)))"
proof -
  define nd where "nd = n + offset pb"
  show ?thesis
  proof (cases "nd \<le> length_p pb")
    case True
    then show ?thesis by (simp add: ensure_def Let_def nd_def)
  next
    case False
    then have mx: "max (length_p pb) nd = nd" by (rule max_needed)
    have e: "ensure (Some pb) n h =
       (if buffer pb = NULL then (None, Some pb, h)
        else if nd * 2 \<le> nd then (None, Some pb, h)
        else let (newbuffer, h1) = malloc_fn h (unat (nd * 2)) in
             if newbuffer = NULL
             then (None, Some (Printbuffer NULL 0 (offset pb)), free_fn h1 (buffer pb))
             else (Some (newbuffer, unat (offset pb)),
                   Some (Printbuffer newbuffer (nd * 2) (offset pb)),
                   free_fn (memcpy h1 newbuffer (buffer pb) (unat (length_p pb))) (buffer pb)))"
      apply (simp only: ensure_def Let_def option.case)
      apply (fold nd_def)
      apply (simp only: mx False if_False)
      done
    show ?thesis
    proof (cases "unat (nd * 2) \<le> avail h")
      case True
      then have m: "malloc_fn h (unat (nd * 2)) = (Suc (brk h), snd (malloc_fn h (unat (nd * 2))))"
        by (simp add: malloc_fn_def)
      show ?thesis
        apply (subst e)
        apply (fold nd_def)
        apply (subst m)
        using False True apply (simp add: NULL_def)
        done
    next
      case F2: False
      then have m: "malloc_fn h (unat (nd * 2)) = (NULL, h)"
        by (simp add: malloc_fn_def)
      show ?thesis
        apply (subst e)
        apply (fold nd_def)
        apply (subst m)
        using False F2 apply simp
        done
    qed
  qed
qed


lemma ensure_grow_heap:
  assumes hk: "heap_ok h" and bk: "buffer_ok h pb"
    and len: "unat (length_p pb) \<le> sz" and av: "sz \<le> avail h"
  defines "h' \<equiv> free_fn (memcpy (snd (malloc_fn h sz)) (Suc (brk h)) (buffer pb)
               (unat (length_p pb))) (buffer pb)"
  shows "blocks h' (Suc (brk h)) = Some (contents h (buffer pb) @ replicate (sz - unat (length_p pb)) None)"
    and "blocks h' (buffer pb) = None"
    and "released h' = released h @ [buffer pb]"
    and "heap_ok h'"
proof -
  obtain bs where bs: "blocks h (buffer pb) = Some bs" "length bs = unat (length_p pb)"
    and nn: "buffer pb \<noteq> NULL"
    using bk by (auto simp add: buffer_ok_def split: option.splits)
  have le: "buffer pb \<le> brk h"
  proof (rule ccontr)
    assume "\<not> buffer pb \<le> brk h"
    then have "blocks h (buffer pb) = None" using hk by (simp add: heap_ok_def)
    with bs show False by simp
  qed
  then have ne: "buffer pb \<noteq> Suc (brk h)" by simp
  define h1 where "h1 = snd (malloc_fn h sz)"
  have h1: "blocks h1 = (blocks h)(Suc (brk h) \<mapsto> replicate sz None)"
    "released h1 = released h" "brk h1 = Suc (brk h)" "ub h1 = ub h"
    using av by (simp_all add: h1_def malloc_fn_def)
  define h2 where "h2 = memcpy h1 (Suc (brk h)) (buffer pb) (unat (length_p pb))"
  have h2: "blocks h2 = (blocks h1)(Suc (brk h) \<mapsto> bs @ replicate (sz - unat (length_p pb)) None)"
    "released h2 = released h" "brk h2 = Suc (brk h)" "ub h2 = ub h"
    using bs ne len by (simp_all add: h2_def memcpy_def h1)
  have h': "h' = free_fn h2 (buffer pb)" by (simp add: h'_def h2_def h1_def)
  show "blocks h' (Suc (brk h)) = Some (contents h (buffer pb) @ replicate (sz - unat (length_p pb)) None)"
    using nn ne bs by (simp add: h' free_fn_def h2 contents_def)
  show "blocks h' (buffer pb) = None" using nn by (simp add: h' free_fn_def)
  show "released h' = released h @ [buffer pb]" using nn by (simp add: h' free_fn_def h2)
  show "heap_ok h'"
    using nn ne bs hk by (auto simp add: h' free_fn_def h2 h1 heap_ok_def)
qed


text \<open>
  The contract of \<open>ensure\<close> when the sum of the offset and the request does not wrap:
  a successful call returns a pointer at the current offset into storage that holds the
  requested bytes beyond the offset and keeps every earlier byte; when the request
  exceeds the capacity the new capacity is twice the larger of the old capacity and the
  sum, and the old storage is released.
\<close>

theorem ensure_contract:
  fixes pb :: "'a::len printbuffer"
  assumes hk: "heap_ok h" and bk: "buffer_ok h pb"
    and nowrap: "unat n + unat (offset pb) < 2 ^ LENGTH('a)"
    and res: "ensure (Some pb) n h = (Some r, p', h')"
  shows "\<exists>pb'. p' = Some pb' \<and> heap_ok h' \<and> buffer_ok h' pb' \<and> offset pb' = offset pb
           \<and> r = (buffer pb', unat (offset pb))
           \<and> unat (offset pb) + unat n \<le> length (contents h' (buffer pb'))
           \<and> take (unat (length_p pb)) (contents h' (buffer pb')) = contents h (buffer pb)
           \<and> (unat (length_p pb) < unat (offset pb) + unat n \<longrightarrow>
                unat (length_p pb') = 2 * max (unat (length_p pb)) (unat (offset pb) + unat n)
                \<and> blocks h' (buffer pb) = None \<and> buffer pb \<in> set (released h'))"
proof -
  define nd where "nd = n + offset pb"
  have und: "unat nd = unat n + unat (offset pb)"
    unfolding nd_def using nowrap by (simp only: unat_add_lem [THEN iffD1])
  obtain bs where bs: "blocks h (buffer pb) = Some bs" "length bs = unat (length_p pb)"
    and nn: "buffer pb \<noteq> NULL"
    using bk by (auto simp add: buffer_ok_def split: option.splits)
  show ?thesis
  proof (cases "nd \<le> length_p pb")
    case True
    then have "ensure (Some pb) n h = (Some (buffer pb, unat (offset pb)), Some pb, h)"
      using nn by (simp add: ensure_unfold nd_def)
    with res have eq: "r = (buffer pb, unat (offset pb))" "p' = Some pb" "h' = h" by simp_all
    from True have "unat n + unat (offset pb) \<le> unat (length_p pb)"
      by (simp add: word_le_nat_alt und)
    then show ?thesis using eq hk bk bs by (simp add: contents_def)
  next
    case False
    then have lt: "unat (length_p pb) < unat n + unat (offset pb)"
      by (simp add: word_le_nat_alt und)
    have nover: "\<not> nd * 2 \<le> nd"
    proof
      assume "nd * 2 \<le> nd"
      then have "ensure (Some pb) n h = (None, Some pb, h)"
        using nn False by (simp add: ensure_unfold nd_def)
      with res show False by simp
    qed
    then have "unat (nd * 2) = 2 * unat nd" by (rule unat_double_gt)
    then have sz: "unat (nd * 2) = 2 * (unat n + unat (offset pb))" by (simp only: und)
    have av: "unat (nd * 2) \<le> avail h"
    proof (rule ccontr)
      assume "\<not> unat (nd * 2) \<le> avail h"
      then have "fst (ensure (Some pb) n h) = None"
        using nn False nover by (simp add: ensure_unfold nd_def)
      with res show False by simp
    qed
    define pb' where "pb' = Printbuffer (Suc (brk h)) (nd * 2) (offset pb)"
    define hh where "hh = free_fn (memcpy (snd (malloc_fn h (unat (nd * 2)))) (Suc (brk h))
               (buffer pb) (unat (length_p pb))) (buffer pb)"
    have "ensure (Some pb) n h = (Some (Suc (brk h), unat (offset pb)), Some pb', hh)"
      using nn False nover av by (simp add: ensure_unfold nd_def pb'_def hh_def)
    with res have eq: "r = (Suc (brk h), unat (offset pb))" "p' = Some pb'" "h' = hh" by simp_all
    have len: "unat (length_p pb) \<le> unat (nd * 2)" using lt sz by simp
    note g = ensure_grow_heap [OF hk bk len av, folded hh_def]
    have pbf: "buffer pb' = Suc (brk h)" "length_p pb' = nd * 2" "offset pb' = offset pb"
      by (simp_all add: pb'_def pb_defs)
    have c: "contents hh (Suc (brk h)) = contents h (buffer pb) @ replicate (unat (nd * 2) - unat (length_p pb)) None"
      using g(1) by (simp add: contents_def)
    have cl: "length (contents h (buffer pb)) = unat (length_p pb)"
      using bs by (simp add: contents_def)
    have "buffer_ok hh pb'"
      using g(1) len cl by (simp add: buffer_ok_def pbf NULL_def)
    moreover have "unat (offset pb) + unat n \<le> length (contents hh (buffer pb'))"
      using len sz cl by (simp add: pbf c)
    moreover have "take (unat (length_p pb)) (contents hh (buffer pb')) = contents h (buffer pb)"
      using cl by (simp add: pbf c)
    moreover have "unat (length_p pb') = 2 * max (unat (length_p pb)) (unat (offset pb) + unat n)"
      using lt sz by (simp add: pbf max_def)
    ultimately show ?thesis
      using eq g(2,3,4) pbf by simp
  qed
qed

text \<open>A doubled size that wraps makes the call fail, and nothing is allocated or released.\<close>

theorem ensure_wrapped_size_fails:
  fixes pb :: "'a::len printbuffer"
  assumes nn: "buffer pb \<noteq> NULL"
    and nowrap: "unat n + unat (offset pb) < 2 ^ LENGTH('a)"
    and grow: "unat (length_p pb) < unat n + unat (offset pb)"
    and wrap: "2 ^ LENGTH('a) \<le> 2 * (unat n + unat (offset pb))"
  shows "ensure (Some pb) n h = (None, Some pb, h)"
proof -
  define nd where "nd = n + offset pb"
  have und: "unat nd = unat n + unat (offset pb)"
    unfolding nd_def using nowrap by (simp only: unat_add_lem [THEN iffD1])
  have "\<not> nd \<le> length_p pb" using grow by (simp add: word_le_nat_alt und)
  moreover have "nd * 2 \<le> nd" using wrap by (intro unat_double_wrap) (simp only: und)
  ultimately show ?thesis using nn by (simp add: ensure_unfold nd_def)
qed

text \<open>
  C8 at a concrete input on a platform with a 32-bit \<open>size_t\<close>: the capacity is
  \<open>0x80000000\<close>, the offset \<open>0x7FFFFFF0\<close> and the request \<open>0x80000020\<close> bytes. The sum
  of request and offset wraps to \<open>0x10\<close>, which is below the capacity, so \<open>ensure\<close>
  returns the pointer at the offset without growing the storage: the region it
  designates has sixteen bytes, fewer than requested.
\<close>

theorem C8_ensure_undersized_region_on_wrapped_sum:
  "let h = \<lparr>blocks = (\<lambda>a. None)(1 \<mapsto> replicate 2147483648 None), released = [], brk = 1,
              avail = 0, ub = False\<rparr>;
       pb = Printbuffer 1 (0x80000000 :: 32 word) 0x7FFFFFF0;
       n = (0x80000020 :: 32 word)
   in buffer_ok h pb \<and> unat (offset pb) \<le> unat (length_p pb)
      \<and> ensure (Some pb) n h = (Some (1, 2147483632), Some pb, h)
      \<and> length (region h (1, 2147483632)) = 16 \<and> 16 < unat n"
  by (simp add: Let_def buffer_ok_def pb_defs NULL_def ensure_unfold region_def)

section \<open>Properties of the mutation primitives\<close>

lemma chain_path: "chain s p ps = path s p ps NULL"
  by (induction ps arbitrary: p) simp_all

lemma path_append: "path s p (xs @ ys) q = (\<exists>m. path s p xs m \<and> path s m ys q)"
  by (induction xs arbitrary: p) auto

lemma path_frame:
  "(\<And>x. x \<in> set ps \<Longrightarrow> next (nodes s' x) = next (nodes s x)) \<Longrightarrow> path s' p ps q = path s p ps q"
  by (induction ps arbitrary: p) auto

lemma chain_frame:
  assumes "\<And>x. x \<in> set ps \<Longrightarrow> next (nodes s' x) = next (nodes s x)"
  shows "chain s' p ps = chain s p ps"
  unfolding chain_path by (rule path_frame) (rule assms)

lemma chain_functional: "chain s p ps \<Longrightarrow> chain s p qs \<Longrightarrow> ps = qs"
proof (induction ps arbitrary: p qs)
  case Nil
  then show ?case by (cases qs) auto
next
  case (Cons x xs)
  then show ?case by (cases qs) auto
qed

lemma chain_next_not_in:
  assumes "chain s (next (nodes s a)) ps"
  shows "a \<notin> set ps"
proof
  assume "a \<in> set ps"
  then obtain xs ys where ps: "ps = xs @ a # ys" by (auto simp add: in_set_conv_decomp)
  with assms have "\<exists>m. path s (next (nodes s a)) xs m \<and> path s m (a # ys) NULL"
    by (simp only: chain_path path_append)
  then have "chain s (next (nodes s a)) ys" by (auto simp add: chain_path)
  with assms have "ps = ys" by (rule chain_functional)
  with ps show False by simp
qed

lemma chain_distinct: "chain s p ps \<Longrightarrow> distinct ps"
  by (induction ps arbitrary: p) (auto dest: chain_next_not_in)

lemma chain_not_NULL: "chain s p ps \<Longrightarrow> NULL \<notin> set ps"
  by (induction ps arbitrary: p) auto

lemma AddItemToArray_tail_chain:
  "chain s c ps \<Longrightarrow> ps \<noteq> [] \<Longrightarrow> AddItemToArray_tail s c = Some (last ps)"
proof (induction ps arbitrary: c)
  case Nil
  then show ?case by simp
next
  case (Cons x xs)
  note IH = Cons.IH and prems = Cons.prems
  from prems have cx: "c = x" and ch: "chain s (next (nodes s c)) xs" by auto
  show ?case
  proof (cases "xs = []")
    case True
    with ch have "next (nodes s c) = NULL" by simp
    then have "AddItemToArray_tail s c = Some c" by (subst AddItemToArray_tail.simps) simp
    with True cx show ?thesis by simp
  next
    case False
    with ch have nn: "next (nodes s c) \<noteq> NULL" by (cases xs) auto
    have "AddItemToArray_tail s (next (nodes s c)) = Some (last xs)"
      using ch False by (rule IH)
    moreover have "AddItemToArray_tail s c = AddItemToArray_tail s (next (nodes s c))"
      using nn by (subst AddItemToArray_tail.simps) simp
    ultimately show ?thesis using False by simp
  qed
qed

lemma chain_snoc:
  assumes "chain s p ps" "ps \<noteq> []" "item \<notin> set ps" "item \<noteq> NULL" "next (nodes s item) = NULL"
  shows "chain (suffix_object s (last ps) item) p (ps @ [item])"
  using assms
proof (induction ps arbitrary: p)
  case Nil
  then show ?case by simp
next
  case (Cons x xs)
  let ?s' = "suffix_object s (last (x # xs)) item"
  show ?case
  proof (cases xs)
    case Nil
    with Cons.prems show ?thesis by (auto simp add: suffix_object_def)
  next
    case (Cons y ys)
    have d: "x \<notin> set xs" using Cons.prems(1) chain_distinct by fastforce
    then have "x \<noteq> last xs" using Cons by auto
    then have nx: "next (nodes ?s' x) = next (nodes s x)" using Cons by (simp add: suffix_object_def)
    have "chain (suffix_object s (last xs) item) (next (nodes s x)) (xs @ [item])"
      using Cons.prems Cons by (intro Cons.IH) auto
    then show ?thesis using Cons.prems nx Cons by auto
  qed
qed

text \<open>
  Appending a standalone node (not in the chain, its own \<open>next\<close> clear) puts it last and
  leaves every other link as it was.
\<close>

theorem append_chain:
  assumes ch: "children s array ps" and it: "item \<noteq> NULL" "item \<notin> set ps" "next (nodes s item) = NULL"
  shows "\<exists>s'. cJSON_AddItemToArray s array item = Some s' \<and> children s' array (ps @ [item])
           \<and> (\<forall>q. q \<notin> set ps \<longrightarrow> next (nodes s' q) = next (nodes s q))"
proof (cases ps)
  case Nil
  then have c: "child (nodes s array) = NULL" using ch by (simp add: children_def)
  then show ?thesis using it Nil by (auto simp add: cJSON_AddItemToArray_def children_def)
next
  case (Cons x xs)
  then have ne: "ps \<noteq> []" by simp
  have ch': "chain s (child (nodes s array)) ps" using ch by (simp add: children_def)
  then have c: "child (nodes s array) \<noteq> NULL" using Cons by auto
  have t: "AddItemToArray_tail s (child (nodes s array)) = Some (last ps)"
    using ch' ne by (rule AddItemToArray_tail_chain)
  have r: "cJSON_AddItemToArray s array item = Some (suffix_object s (last ps) item)"
    using it c t by (simp add: cJSON_AddItemToArray_def)
  have "child (nodes (suffix_object s (last ps) item) array) = child (nodes s array)"
    by (simp add: suffix_object_def)
  moreover have "chain (suffix_object s (last ps) item) (child (nodes s array)) (ps @ [item])"
    using ch' ne it(2,1,3) by (rule chain_snoc)
  moreover have "\<forall>q. q \<notin> set ps \<longrightarrow> next (nodes (suffix_object s (last ps) item) q) = next (nodes s q)"
    using ne by (auto simp add: suffix_object_def)
  ultimately show ?thesis using r by (simp add: children_def)
qed


lemma Detach_walk_in_range:
  "chain s c ps \<Longrightarrow> i < length ps \<Longrightarrow>
   Detach_walk s prev c i = ((if i = 0 then prev else ps ! (i - 1)), ps ! i)"
proof (induction i arbitrary: c ps prev)
  case 0
  then show ?case by (cases ps) auto
next
  case (Suc i)
  from Suc.prems obtain x xs where ps: "ps = x # xs" by (cases ps) auto
  with Suc.prems have c: "c = x" "c \<noteq> NULL" and ch: "chain s (next (nodes s c)) xs"
    and i: "i < length xs" by auto
  have "Detach_walk s c (next (nodes s c)) i = ((if i = 0 then c else xs ! (i - 1)), xs ! i)"
    using ch i by (rule Suc.IH)
  then show ?case using c ps by (cases i) auto
qed

lemma Detach_walk_out_of_range:
  "chain s c ps \<Longrightarrow> length ps \<le> i \<Longrightarrow> snd (Detach_walk s prev c i) = NULL"
proof (induction i arbitrary: c ps prev)
  case 0
  then show ?case by simp
next
  case (Suc i)
  show ?case
  proof (cases ps)
    case Nil
    with Suc.prems show ?thesis by simp
  next
    case (Cons x xs)
    with Suc.prems have c: "c \<noteq> NULL" and ch: "chain s (next (nodes s c)) xs"
      and i: "length xs \<le> i" by auto
    have "snd (Detach_walk s c (next (nodes s c)) i) = NULL" using ch i by (rule Suc.IH)
    then show ?thesis using c by simp
  qed
qed

lemma chain_append: "chain s p (xs @ ys) = (\<exists>m. path s p xs m \<and> chain s m ys)"
  by (simp only: chain_path path_append)

lemma detach_first:
  assumes ch: "children s array (c # ys)"
  defines "s1 \<equiv> s\<lparr>nodes := (nodes s)(array := (nodes s array)\<lparr>child := next (nodes s c)\<rparr>)\<rparr>"
  defines "s2 \<equiv> s1\<lparr>nodes := (nodes s1)(c := (nodes s1 c)\<lparr>next := NULL\<rparr>)\<rparr>"
  shows "children s2 array ys" and "child (nodes s2 array) = next (nodes s c)"
proof -
  from ch have ch': "chain s (next (nodes s c)) ys" by (auto simp add: children_def)
  then have nin: "c \<notin> set ys" by (rule chain_next_not_in)
  show c2: "child (nodes s2 array) = next (nodes s c)" by (simp add: s2_def s1_def)
  have "chain s2 (next (nodes s c)) ys = chain s (next (nodes s c)) ys"
  proof (rule chain_frame)
    fix x assume "x \<in> set ys"
    with nin have "x \<noteq> c" by auto
    then show "next (nodes s2 x) = next (nodes s x)" by (simp add: s2_def s1_def)
  qed
  with ch' c2 show "children s2 array ys" by (simp add: children_def)
qed

lemma detach_inner:
  assumes ch: "children s array (xs @ prev # c # ys)"
  defines "s1 \<equiv> s\<lparr>nodes := (nodes s)(prev := (nodes s prev)\<lparr>next := next (nodes s c)\<rparr>)\<rparr>"
  defines "s2 \<equiv> s1\<lparr>nodes := (nodes s1)(c := (nodes s1 c)\<lparr>next := NULL\<rparr>)\<rparr>"
  shows "children s2 array (xs @ prev # ys)" and "next (nodes s2 prev) = next (nodes s c)"
proof -
  let ?p = "child (nodes s array)"
  from ch have full: "chain s ?p (xs @ prev # c # ys)" by (simp add: children_def)
  then have d: "distinct (xs @ prev # c # ys)" by (rule chain_distinct)
  from full obtain m where m: "path s ?p xs m" "chain s m (prev # c # ys)"
    by (auto simp only: chain_append)
  then have mp: "m = prev" "prev \<noteq> NULL" and nc: "next (nodes s prev) = c"
    and ys: "chain s (next (nodes s c)) ys" by auto
  have pc: "prev \<noteq> c" using d by auto
  show n2: "next (nodes s2 prev) = next (nodes s c)" using pc by (simp add: s2_def s1_def)
  have c2: "child (nodes s2 array) = ?p" by (simp add: s2_def s1_def)
  have "path s2 ?p xs prev = path s ?p xs prev"
  proof (rule path_frame)
    fix x assume "x \<in> set xs"
    with d have "x \<noteq> prev" "x \<noteq> c" by auto
    then show "next (nodes s2 x) = next (nodes s x)" by (simp add: s2_def s1_def)
  qed
  with m mp have p2: "path s2 ?p xs prev" by simp
  have "chain s2 (next (nodes s c)) ys = chain s (next (nodes s c)) ys"
  proof (rule chain_frame)
    fix x assume "x \<in> set ys"
    with d have "x \<noteq> prev" "x \<noteq> c" by auto
    then show "next (nodes s2 x) = next (nodes s x)" by (simp add: s2_def s1_def)
  qed
  with ys have y2: "chain s2 (next (nodes s c)) ys" by simp
  have "chain s2 prev (prev # ys)" using mp n2 y2 by simp
  with p2 have "chain s2 ?p (xs @ prev # ys)" by (auto simp only: chain_append)
  with c2 show "children s2 array (xs @ prev # ys)" by (simp add: children_def)
qed


text \<open>Detaching at an index within the chain.\<close>

theorem detach_in_range:
  assumes ch: "children s array ps" and i: "i < length ps"
  shows "\<exists>s'. cJSON_DetachItemFromArray s array i = (ps ! i, s')
           \<and> children s' array (take i ps @ drop (Suc i) ps)
           \<and> next (nodes s' (ps ! i)) = NULL
           \<and> (if i = 0 then child (nodes s' array) else next (nodes s' (ps ! (i - 1))))
               = next (nodes s (ps ! i))
           \<and> (\<forall>q. q \<noteq> ps ! i \<and> q \<noteq> (if i = 0 then array else ps ! (i - 1))
                  \<longrightarrow> nodes s' q = nodes s q)
           \<and> hp s' = hp s"
proof -
  let ?p = "child (nodes s array)"
  let ?c = "ps ! i"
  from ch have full: "chain s ?p ps" by (simp add: children_def)
  then have d: "distinct ps" by (rule chain_distinct)
  have cn: "?c \<noteq> NULL" using chain_not_NULL [OF full] i by (metis nth_mem)
  have w: "Detach_walk s NULL ?p i = ((if i = 0 then NULL else ps ! (i - 1)), ?c)"
    using full i by (rule Detach_walk_in_range)
  have hd: "?p = ps ! 0" using full i by (cases ps) auto
  show ?thesis
  proof (cases i)
    case 0
    then obtain ys where ps: "ps = ?c # ys" using i by (cases ps) auto
    define s1 where "s1 = s\<lparr>nodes := (nodes s)(array := (nodes s array)\<lparr>child := next (nodes s ?c)\<rparr>)\<rparr>"
    define s2 where "s2 = s1\<lparr>nodes := (nodes s1)(?c := (nodes s1 ?c)\<lparr>next := NULL\<rparr>)\<rparr>"
    have r: "cJSON_DetachItemFromArray s array i = (?c, s2)"
      using w cn hd 0 by (simp add: cJSON_DetachItemFromArray_def Let_def s1_def s2_def)
    have "children s array (?c # ys)" using ch ps by simp
    note f = detach_first [OF this, folded s1_def s2_def]
    have "take i ps @ drop (Suc i) ps = ys" using 0 ps by (metis append_Nil drop0 drop_Suc_Cons take_0)
    moreover have "next (nodes s2 ?c) = NULL" by (simp add: s2_def)
    moreover have "\<forall>q. q \<noteq> ?c \<and> q \<noteq> array \<longrightarrow> nodes s2 q = nodes s q"
      by (simp add: s2_def s1_def)
    moreover have "hp s2 = hp s" by (simp add: s2_def s1_def)
    ultimately show ?thesis using r f 0 by simp
  next
    case (Suc j)
    let ?prev = "ps ! j"
    have j: "j < length ps" using i Suc by simp
    have ps: "ps = take j ps @ ?prev # ?c # drop (Suc i) ps"
      using i Suc by (metis Cons_nth_drop_Suc append_take_drop_id j)
    have z: "0 < length ps" using i by (cases ps) auto
    have "(ps ! i = ps ! 0) = (i = 0)" using d i z by (rule nth_eq_iff_index_eq)
    then have "ps ! i \<noteq> ps ! 0" using Suc by simp
    then have ne: "?c \<noteq> ?p" using hd by simp
    define s1 where "s1 = s\<lparr>nodes := (nodes s)(?prev := (nodes s ?prev)\<lparr>next := next (nodes s ?c)\<rparr>)\<rparr>"
    define s2 where "s2 = s1\<lparr>nodes := (nodes s1)(?c := (nodes s1 ?c)\<lparr>next := NULL\<rparr>)\<rparr>"
    have r: "cJSON_DetachItemFromArray s array i = (?c, s2)"
      using w cn ne Suc by (simp add: cJSON_DetachItemFromArray_def Let_def s1_def s2_def)
    have "children s array (take j ps @ ?prev # ?c # drop (Suc i) ps)" using ch ps by simp
    note f = detach_inner [OF this, folded s1_def s2_def]
    have "take i ps @ drop (Suc i) ps = take j ps @ ?prev # drop (Suc i) ps"
      using Suc j by (simp add: take_Suc_conv_app_nth)
    moreover have "next (nodes s2 ?c) = NULL" by (simp add: s2_def)
    moreover have "\<forall>q. q \<noteq> ?c \<and> q \<noteq> ?prev \<longrightarrow> nodes s2 q = nodes s q"
      by (simp add: s2_def s1_def)
    moreover have "hp s2 = hp s" by (simp add: s2_def s1_def)
    ultimately show ?thesis using r f Suc by simp
  qed
qed

text \<open>Detaching at an index beyond the chain.\<close>

theorem detach_out_of_range:
  assumes ch: "children s array ps" and i: "length ps \<le> i"
  shows "cJSON_DetachItemFromArray s array i = (NULL, s)"
proof -
  from ch have "chain s (child (nodes s array)) ps" by (simp add: children_def)
  then have "snd (Detach_walk s NULL (child (nodes s array)) i) = NULL"
    using i by (rule Detach_walk_out_of_range)
  then show ?thesis
    by (cases "Detach_walk s NULL (child (nodes s array)) i")
       (simp add: cJSON_DetachItemFromArray_def Let_def)
qed


lemma three_appends:
  assumes e: "children s array []"
    and n: "a \<noteq> NULL" "b \<noteq> NULL" "c \<noteq> NULL"
    and d: "a \<noteq> b" "a \<noteq> c" "b \<noteq> c"
    and x: "next (nodes s a) = NULL" "next (nodes s b) = NULL" "next (nodes s c) = NULL"
  shows "\<exists>s1 s2 s3. cJSON_AddItemToArray s array a = Some s1
           \<and> cJSON_AddItemToArray s1 array b = Some s2
           \<and> cJSON_AddItemToArray s2 array c = Some s3
           \<and> children s3 array [a, b, c]"
proof -
  from append_chain [OF e n(1) _ x(1)]
  obtain s1 where s1: "cJSON_AddItemToArray s array a = Some s1" "children s1 array [a]"
    "\<forall>q. next (nodes s1 q) = next (nodes s q)" by auto
  have "next (nodes s1 b) = NULL" using s1(3) x(2) by simp
  from append_chain [OF s1(2) n(2) _ this]
  obtain s2 where s2: "cJSON_AddItemToArray s1 array b = Some s2" "children s2 array [a, b]"
    "\<forall>q. q \<noteq> a \<longrightarrow> next (nodes s2 q) = next (nodes s1 q)" using d by auto
  have "next (nodes s2 c) = NULL" using s2(3) s1(3) x(3) d by simp
  from append_chain [OF s2(2) n(3) _ this]
  obtain s3 where s3: "cJSON_AddItemToArray s2 array c = Some s3" "children s3 array [a, b, c]"
    using d by auto
  show ?thesis using s1(1) s2(1) s3 by blast
qed

text \<open>
  C9: for an array whose child chain is \<open>ps\<close>: appending a standalone item yields the chain
  \<open>ps @ [item]\<close>, and three appends to an empty array yield the three items in insertion
  order; detaching at an index \<open>i\<close> within the chain returns the node \<open>ps ! i\<close>, re-points the
  first-child link of the array (for \<open>i = 0\<close>) or the \<open>next\<close> link of the predecessor to
  the successor of the detached node, clears the detached node's \<open>next\<close>, changes no other
  node, and leaves the other children in their order; detaching at an index beyond the
  chain returns \<open>NULL\<close> and leaves the state unchanged.
\<close>

theorem C9_append_and_detach:
  assumes "children s array ps"
  shows "(item \<noteq> NULL \<and> item \<notin> set ps \<and> next (nodes s item) = NULL \<longrightarrow>
            (\<exists>s'. cJSON_AddItemToArray s array item = Some s' \<and> children s' array (ps @ [item])))
       \<and> (ps = [] \<and> NULL \<notin> {a, b, c} \<and> distinct [a, b, c]
            \<and> next (nodes s a) = NULL \<and> next (nodes s b) = NULL \<and> next (nodes s c) = NULL \<longrightarrow>
            (\<exists>s1 s2 s3. cJSON_AddItemToArray s array a = Some s1
               \<and> cJSON_AddItemToArray s1 array b = Some s2
               \<and> cJSON_AddItemToArray s2 array c = Some s3
               \<and> children s3 array [a, b, c]))
       \<and> (i < length ps \<longrightarrow>
            (\<exists>s'. cJSON_DetachItemFromArray s array i = (ps ! i, s')
               \<and> children s' array (take i ps @ drop (Suc i) ps)
               \<and> next (nodes s' (ps ! i)) = NULL
               \<and> (if i = 0 then child (nodes s' array) else next (nodes s' (ps ! (i - 1))))
                   = next (nodes s (ps ! i))
               \<and> (\<forall>q. q \<noteq> ps ! i \<and> q \<noteq> (if i = 0 then array else ps ! (i - 1))
                      \<longrightarrow> nodes s' q = nodes s q)))
       \<and> (length ps \<le> i \<longrightarrow> cJSON_DetachItemFromArray s array i = (NULL, s))"
proof (intro conjI impI)
  assume "item \<noteq> NULL \<and> item \<notin> set ps \<and> next (nodes s item) = NULL"
  then show "\<exists>s'. cJSON_AddItemToArray s array item = Some s' \<and> children s' array (ps @ [item])"
    using append_chain [OF assms, of item] by blast
next
  assume h: "ps = [] \<and> NULL \<notin> {a, b, c} \<and> distinct [a, b, c]
    \<and> next (nodes s a) = NULL \<and> next (nodes s b) = NULL \<and> next (nodes s c) = NULL"
  then have "children s array []" using assms by simp
  then show "\<exists>s1 s2 s3. cJSON_AddItemToArray s array a = Some s1
               \<and> cJSON_AddItemToArray s1 array b = Some s2
               \<and> cJSON_AddItemToArray s2 array c = Some s3
               \<and> children s3 array [a, b, c]"
    using h by (intro three_appends) auto
next
  assume "i < length ps"
  with assms show "\<exists>s'. cJSON_DetachItemFromArray s array i = (ps ! i, s')
               \<and> children s' array (take i ps @ drop (Suc i) ps)
               \<and> next (nodes s' (ps ! i)) = NULL
               \<and> (if i = 0 then child (nodes s' array) else next (nodes s' (ps ! (i - 1))))
                   = next (nodes s (ps ! i))
               \<and> (\<forall>q. q \<noteq> ps ! i \<and> q \<noteq> (if i = 0 then array else ps ! (i - 1))
                      \<longrightarrow> nodes s' q = nodes s q)"
    using detach_in_range [OF assms, of i] by blast
next
  assume "length ps \<le> i"
  with assms show "cJSON_DetachItemFromArray s array i = (NULL, s)"
    by (rule detach_out_of_range)
qed

theorem C9_append_and_detach_witness:
  "children ex_state 1 [2, 3, 4]
   \<and> (\<exists>s'. cJSON_AddItemToArray ex_state 1 5 = Some s' \<and> children s' 1 [2, 3, 4, 5])
   \<and> (\<exists>s'. cJSON_DetachItemFromArray ex_state 1 1 = (3, s') \<and> children s' 1 [2, 4]
          \<and> next (nodes s' 3) = NULL \<and> next (nodes s' 2) = 4)
   \<and> cJSON_DetachItemFromArray ex_state 1 3 = (NULL, ex_state)
   \<and> children ex_state 9 []
   \<and> (\<exists>s1 s2 s3. cJSON_AddItemToArray ex_state 9 5 = Some s1
          \<and> cJSON_AddItemToArray s1 9 6 = Some s2 \<and> cJSON_AddItemToArray s2 9 7 = Some s3
          \<and> children s3 9 [5, 6, 7])"
proof -
  have c1: "children ex_state 1 [2, 3, 4]"
    by (simp add: children_def ex_state_def cleared_node_def NULL_def)
  have c9: "children ex_state 9 []"
    by (simp add: children_def ex_state_def cleared_node_def NULL_def)
  have n: "next (nodes ex_state 5) = NULL" "next (nodes ex_state 6) = NULL"
    "next (nodes ex_state 7) = NULL" "next (nodes ex_state 3) = 4"
    by (simp_all add: ex_state_def cleared_node_def NULL_def)
  show ?thesis
    using C9_append_and_detach [OF c1, of 5 0 0 0 1] C9_append_and_detach [OF c1, of 0 0 0 0 3]
      C9_append_and_detach [OF c9, of 0 5 6 7 0] c1 c9 n
    by (simp add: NULL_def) blast
qed

lemma released_only_refl: "released_only s s"
  by (simp add: released_only_def)

lemma released_only_trans:
  "released_only s s1 \<Longrightarrow> released_only s1 s2 \<Longrightarrow> released_only s s2"
  by (auto simp add: released_only_def)

lemma released_only_release:
  "may_release (nodes s) a \<Longrightarrow> released_only s (release s a)"
  by (simp add: released_only_def release_def free_fn_def)

text \<open>Teardown changes no node and releases only addresses that the tree owns.\<close>

lemma Delete_released_only:
  assumes "internal_cJSON_Delete s c = Some s'"
  shows "released_only s s'"
proof (rule internal_cJSON_Delete.raw_induct [where P = "\<lambda>s c s'. released_only s s'", OF _ assms])
  fix del :: "state \<Rightarrow> ptr \<Rightarrow> state option" and s c s'
  assume IH: "\<And>s c y. del s c = Some y \<Longrightarrow> released_only s y"
  let ?A = "if \<not> is_reference (nodes s c) \<and> child (nodes s c) \<noteq> NULL
            then del s (child (nodes s c)) else Some s"
  assume eq: "(if c = NULL then Some s
      else Option.bind ?A
            (\<lambda>s1. let s2 = if \<not> is_reference (nodes s1 c) \<and> type (nodes s1 c) = cJSON_String \<and>
                              value_string (nodes s1 c) \<noteq> NULL
                           then release s1 (value_string (nodes s1 c)) else s1;
                      s3 = if \<not> string_is_const (nodes s2 c) \<and> name (nodes s2 c) \<noteq> NULL
                           then release s2 (name (nodes s2 c)) else s2;
                      s4 = release s3 c
                  in del s4 (next (nodes s c)))) = Some s'"
  show "released_only s s'"
  proof (cases "c = NULL")
    case True
    with eq show ?thesis by (simp add: released_only_refl)
  next
    case False
    with eq obtain s1 where a: "?A = Some s1"
      and rest: "(let s2 = if \<not> is_reference (nodes s1 c) \<and> type (nodes s1 c) = cJSON_String \<and>
                              value_string (nodes s1 c) \<noteq> NULL
                           then release s1 (value_string (nodes s1 c)) else s1;
                      s3 = if \<not> string_is_const (nodes s2 c) \<and> name (nodes s2 c) \<noteq> NULL
                           then release s2 (name (nodes s2 c)) else s2;
                      s4 = release s3 c
                  in del s4 (next (nodes s c))) = Some s'"
      by (auto simp add: bind_eq_Some_conv)
    have r1: "released_only s s1"
      using a IH by (auto simp add: released_only_refl split: if_splits)
    define s2 where "s2 = (if \<not> is_reference (nodes s1 c) \<and> type (nodes s1 c) = cJSON_String \<and>
                              value_string (nodes s1 c) \<noteq> NULL
                           then release s1 (value_string (nodes s1 c)) else s1)"
    define s3 where "s3 = (if \<not> string_is_const (nodes s2 c) \<and> name (nodes s2 c) \<noteq> NULL
                           then release s2 (name (nodes s2 c)) else s2)"
    define s4 where "s4 = release s3 c"
    have r2: "released_only s1 s2"
      using False unfolding s2_def
      by (auto intro!: released_only_release released_only_refl simp add: may_release_def)
    have r3: "released_only s2 s3"
      using False unfolding s3_def
      by (auto intro!: released_only_release released_only_refl simp add: may_release_def)
    have r4: "released_only s3 s4"
      using False unfolding s4_def
      by (auto intro!: released_only_release simp add: may_release_def)
    from rest have "del s4 (next (nodes s c)) = Some s'"
      by (simp only: Let_def s2_def s3_def s4_def)
    then have r5: "released_only s4 s'" by (rule IH)
    show ?thesis
      using r1 r2 r3 r4 r5 by (blast intro: released_only_trans)
  qed
qed

text \<open>Teardown never releases an address that occurs in the tree only as a constant key.\<close>
theorem Delete_keeps_constant_keys:
  assumes "cJSON_Delete s c = Some s'"
    and "k \<notin> set (released (hp s))"
    and "\<And>n. n \<noteq> NULL \<Longrightarrow> k \<noteq> n
           \<and> (k = value_string (nodes s n) \<longrightarrow> is_reference (nodes s n) \<or> type (nodes s n) \<noteq> cJSON_String)
           \<and> (k = name (nodes s n) \<longrightarrow> string_is_const (nodes s n))"
  shows "k \<notin> set (released (hp s'))"
proof -
  from assms(1) have "released_only s s'" by (simp add: cJSON_Delete_def Delete_released_only)
  then obtain xs where xs: "released (hp s') = released (hp s) @ xs"
    "\<forall>x \<in> set xs. may_release (nodes s) x" by (auto simp add: released_only_def)
  have "\<not> may_release (nodes s) k" using assms(3) by (auto simp add: may_release_def)
  with xs assms(2) show ?thesis by auto
qed

text \<open>
  \<open>cJSON_AddItemToObjectCS\<close> does not release the key of a node marked as constant, but
  \<open>cJSON_AddItemToObject\<close> releases whatever key the node has, the mark notwithstanding.
\<close>

lemma AddItemToObjectCS_keeps_constant_key:
  assumes "string_is_const (nodes s item)"
    and "cJSON_AddItemToObjectCS s object nm item = Some s'"
  shows "released (hp s') = released (hp s)"
proof (cases "item = NULL")
  case True
  with assms show ?thesis by (simp add: cJSON_AddItemToObjectCS_def)
next
  case False
  define s2 where "s2 = s\<lparr>nodes := (nodes s)(item := (nodes s item)\<lparr>name := nm, string_is_const := True\<rparr>)\<rparr>"
  have "cJSON_AddItemToArray s2 object item = Some s'"
    using assms False by (simp add: cJSON_AddItemToObjectCS_def s2_def)
  then have "hp s' = hp s2"
    by (auto simp add: cJSON_AddItemToArray_def Let_def suffix_object_def split: if_splits option.splits)
  then show ?thesis by (simp add: s2_def)
qed

lemma AddItemToObject_releases_key:
  assumes "item \<noteq> NULL" "name (nodes s item) \<noteq> NULL"
    and "cJSON_AddItemToObject s object nm item = Some s'"
  shows "released (hp s') = released (hp s) @ [name (nodes s item)]"
proof -
  define s1 where "s1 = release s (name (nodes s item))"
  define s2 where "s2 = s1\<lparr>nodes := (nodes s1)(item := (nodes s1 item)\<lparr>name := fst (cJSON_strdup nm (hp s1))\<rparr>),
                           hp := snd (cJSON_strdup nm (hp s1))\<rparr>"
  have "cJSON_AddItemToArray s2 object item = Some s'"
    using assms by (simp add: cJSON_AddItemToObject_def s1_def s2_def Let_def split_beta)
  then have "hp s' = hp s2"
    by (auto simp add: cJSON_AddItemToArray_def Let_def suffix_object_def split: if_splits option.splits)
  moreover have "released (hp s2) = released (hp s1)"
    by (simp add: s2_def cJSON_strdup_def malloc_fn_def Let_def split_beta)
  moreover have "released (hp s1) = released (hp s) @ [name (nodes s item)]"
    using assms(2) by (simp add: s1_def release_def free_fn_def)
  ultimately show ?thesis by simp
qed

text \<open>
  C10 at a concrete input: a node receives the host's key text at address 100 through
  \<open>cJSON_AddItemToObjectCS\<close> (the text is not a block of the allocator). Teardown of the
  object skips the key. But after detaching the node, \<open>cJSON_AddItemToObject\<close> on it hands
  address 100 to the release function.
\<close>

theorem C10_AddItemToObject_releases_constant_key:
  "(let (o1, s1) = internal_cJSON_CreateObject (initial_state 1000);
        (o2, s2) = internal_cJSON_CreateObject s1;
        (x, s3) = internal_cJSON_CreateNull s2
    in case cJSON_AddItemToObjectCS s3 o1 100 x of
         None \<Rightarrow> False
       | Some s4 \<Rightarrow>
           name (nodes s4 x) = 100 \<and> string_is_const (nodes s4 x) \<and> children s4 o1 [x]
           \<and> blocks (hp s4) 100 = None \<and> released (hp s4) = []
           \<and> map_option (\<lambda>s. released (hp s)) (cJSON_Delete s4 o1) = Some [x, o1]
           \<and> (let (d, s5) = cJSON_DetachItemFromArray s4 o1 0
               in d = x \<and>
                  (case cJSON_AddItemToObject s5 o2 ''key'' d of
                     None \<Rightarrow> False
                   | Some s6 \<Rightarrow> children s6 o2 [x] \<and> released (hp s6) = [100])))"
  by code_simp

section \<open>Properties of \<open>parse_string\<close>\<close>

lemma special_chars_distinct [simp]:
  "dquote \<noteq> NUL" "NUL \<noteq> dquote" "backslash \<noteq> NUL" "NUL \<noteq> backslash"
  "dquote \<noteq> backslash" "backslash \<noteq> dquote"
  by (simp_all add: dquote_def backslash_def NUL_def)

lemma peek_in_text: "i \<le> length t \<Longrightarrow> \<exists>c. peek t i = Ret c"
  by (simp add: peek_def)

lemma peek_not_NUL: "peek t i = Ret c \<Longrightarrow> c \<noteq> NUL \<Longrightarrow> i < length t"
  by (auto simp add: peek_def split: if_splits)

lemma peek_nth: "i < length t \<Longrightarrow> peek t i = Ret (t ! i)"
  by (simp add: peek_def)

lemma peek_end: "peek t (length t) = Ret NUL"
  by (simp add: peek_def)

lemma peek_Ret_bound: "peek t i = Ret c \<Longrightarrow> i \<le> length t"
  by (auto simp add: peek_def split: if_splits)

lemma hex_digit_plain: "hex_digit c = Some d \<Longrightarrow> plain c"
  by (auto simp add: hex_digit_def plain_def dquote_def backslash_def NUL_def split: if_splits)

lemma scan_stop:
  "peek t p = Ret c \<Longrightarrow> c = dquote \<or> c = NUL \<Longrightarrow> scan_string t p len = Ret (p, len)"
  by (subst scan_string.simps) auto

lemma scan_plain:
  "peek t p = Ret c \<Longrightarrow> plain c \<Longrightarrow> scan_string t p len = scan_string t (p + 1) (len + 1)"
  by (subst scan_string.simps) (simp add: plain_def)

lemma scan_escape:
  "peek t p = Ret backslash \<Longrightarrow> peek t (p + 1) = Ret c' \<Longrightarrow>
   scan_string t p len = (if c' = NUL then Null None else scan_string t (p + 2) (len + 1))"
  by (subst scan_string.simps) simp

lemma scan_peek: "scan_string t p len = Ret r \<Longrightarrow> \<exists>c. peek t p = Ret c"
  by (subst (asm) scan_string.simps) (auto simp add: rbind_eq_Ret)

lemma scan_escape_peek:
  "scan_string t p len = Ret r \<Longrightarrow> peek t p = Ret backslash \<Longrightarrow> \<exists>c'. peek t (p + 1) = Ret c'"
  by (subst (asm) scan_string.simps) (auto simp add: rbind_eq_Ret)

lemma char_cases: "c = dquote \<or> c = NUL \<or> c = backslash \<or> plain c"
  by (auto simp add: plain_def)

lemma reach_stop: "reach t p e \<Longrightarrow> peek t p = Ret c \<Longrightarrow> c = dquote \<or> c = NUL \<Longrightarrow> e = p"
  by (auto simp add: reach_def scan_stop)

lemma reach_plain: "reach t p e \<Longrightarrow> peek t p = Ret c \<Longrightarrow> plain c \<Longrightarrow> reach t (p + 1) e"
  unfolding reach_def by (metis scan_plain)

lemma reach_escape:
  assumes "reach t p e" "peek t p = Ret backslash"
  shows "\<exists>c'. peek t (p + 1) = Ret c' \<and> c' \<noteq> NUL \<and> reach t (p + 2) e"
proof -
  from assms(1) obtain len l where s: "scan_string t p len = Ret (e, l)" by (auto simp add: reach_def)
  from scan_escape_peek [OF s assms(2)] obtain c' where c': "peek t (p + 1) = Ret c'" by blast
  from s have "(if c' = NUL then Null None else scan_string t (p + 2) (len + 1)) = Ret (e, l)"
    by (simp only: scan_escape [OF assms(2) c'])
  then have "c' \<noteq> NUL" "scan_string t (p + 2) (len + 1) = Ret (e, l)" by (auto split: if_splits)
  with c' show ?thesis unfolding reach_def by blast
qed

lemma reach_peek: "reach t p e \<Longrightarrow> \<exists>c. peek t p = Ret c"
  unfolding reach_def by (blast dest: scan_peek)

lemma scan_bounds:
  "scan_string t p len = Ret (e, l) \<Longrightarrow>
   p \<le> e \<and> e \<le> length t \<and> (peek t e = Ret dquote \<or> peek t e = Ret NUL)"
proof (induction t p len rule: scan_string.induct)
  case (1 t p len)
  from scan_peek [OF "1.prems"] obtain c where c: "peek t p = Ret c" by blast
  consider "c = dquote \<or> c = NUL" | "c = backslash" | "plain c" using char_cases by blast
  then show ?case
  proof cases
    case 1
    with c "1.prems" have "e = p" by (simp add: scan_stop)
    with c 1 show ?thesis by (auto dest: peek_Ret_bound)
  next
    case 2
    from scan_escape_peek [OF "1.prems"] c 2 obtain c' where c': "peek t (p + 1) = Ret c'" by blast
    from "1.prems" c 2 c' have n: "c' \<noteq> NUL" and s: "scan_string t (p + 2) (len + 1) = Ret (e, l)"
      by (auto simp add: scan_escape split: if_splits)
    from "1.IH"(1) [OF c _ 2 c' n s] 2 show ?thesis by simp
  next
    case 3
    with "1.prems" c have s: "scan_string t (p + 1) (len + 1) = Ret (e, l)" by (simp add: scan_plain)
    from 3 have "c \<noteq> dquote \<and> c \<noteq> NUL" "c \<noteq> backslash" by (simp_all add: plain_def)
    from "1.IH"(2) [OF c this s] show ?thesis by simp
  qed
qed

lemma reach_bounds:
  "reach t p e \<Longrightarrow> p \<le> e \<and> e \<le> length t \<and> (peek t e = Ret dquote \<or> peek t e = Ret NUL)"
  unfolding reach_def by (blast dest: scan_bounds)

lemma reach_plain_lt:
  assumes "reach t p e" "peek t p = Ret c" "plain c"
  shows "p < e"
proof -
  from reach_bounds [OF assms(1)] have "p \<le> e" and "peek t e = Ret dquote \<or> peek t e = Ret NUL" by simp_all
  moreover have "e \<noteq> p" using assms calculation(2) by (auto simp add: plain_def)
  ultimately show ?thesis by simp
qed

lemma scan_no_fault:
  "p \<le> length t \<Longrightarrow> scan_string t p len \<noteq> Fault \<and> scan_string t p len \<noteq> Timeout"
proof (induction t p len rule: scan_string.induct)
  case (1 t p len)
  from peek_in_text [OF "1.prems"] obtain c where c: "peek t p = Ret c" by blast
  consider "c = dquote \<or> c = NUL" | "c = backslash" | "plain c" using char_cases by blast
  then show ?case
  proof cases
    case 1
    with c show ?thesis by (simp add: scan_stop)
  next
    case 2
    then have "c \<noteq> NUL" by simp
    with c have lt: "p < length t" by (rule peek_not_NUL)
    then obtain c' where c': "peek t (p + 1) = Ret c'" using peek_in_text [of "p + 1" t] by auto
    show ?thesis
    proof (cases "c' = NUL")
      case True
      with c 2 c' show ?thesis by (simp add: scan_escape)
    next
      case False
      with c' have "p + 1 < length t" by (rule peek_not_NUL)
      then have "p + 2 \<le> length t" by simp
      from "1.IH"(1) [OF c _ 2 c' False this] 2 c c' False show ?thesis by (simp add: scan_escape)
    qed
  next
    case 3
    then have "c \<noteq> NUL" by (simp add: plain_def)
    with c have "p < length t" by (rule peek_not_NUL)
    then have le: "p + 1 \<le> length t" by simp
    from 3 have "c \<noteq> dquote \<and> c \<noteq> NUL" "c \<noteq> backslash" by (simp_all add: plain_def)
    from "1.IH"(2) [OF c this le] c 3 show ?thesis by (simp add: scan_plain)
  qed
qed


lemma hex_digit_peek:
  "peek t i = Ret c \<Longrightarrow> hex_digit c = Some d \<Longrightarrow> i < length t \<and> plain c"
  using hex_digit_plain [of c d] peek_not_NUL [of t i c] by (auto simp add: plain_def)

lemma parse_hex4_cases:
  assumes "i \<le> length t"
  obtains (invalid) "parse_hex4 t i = Ret 0"
  | (valid) c0 c1 c2 c3 d0 d1 d2 d3 where
      "peek t i = Ret c0" "peek t (i + 1) = Ret c1" "peek t (i + 2) = Ret c2" "peek t (i + 3) = Ret c3"
      "hex_digit c0 = Some d0" "hex_digit c1 = Some d1" "hex_digit c2 = Some d2" "hex_digit c3 = Some d3"
      "parse_hex4 t i = Ret (push_bit 4 (push_bit 4 (push_bit 4 (0 + d0) + d1) + d2) + d3)"
proof -
  from peek_in_text [OF assms] obtain c0 where c0: "peek t i = Ret c0" by blast
  show thesis
  proof (cases "hex_digit c0")
    case None
    with c0 have "parse_hex4 t i = Ret 0" by (simp add: parse_hex4_def)
    then show ?thesis by (rule invalid)
  next
    case d0: (Some d0)
    with c0 have "i < length t" by (simp add: hex_digit_peek)
    then obtain c1 where c1: "peek t (i + 1) = Ret c1" using peek_in_text [of "i + 1" t] by auto
    show ?thesis
    proof (cases "hex_digit c1")
      case None
      with c0 d0 c1 have "parse_hex4 t i = Ret 0" by (simp add: parse_hex4_def)
      then show ?thesis by (rule invalid)
    next
      case d1: (Some d1)
      with c1 have "i + 1 < length t" by (simp add: hex_digit_peek)
      then obtain c2 where c2: "peek t (i + 2) = Ret c2" using peek_in_text [of "i + 2" t] by auto
      show ?thesis
      proof (cases "hex_digit c2")
        case None
        with c0 d0 c1 d1 c2 have "parse_hex4 t i = Ret 0" by (simp add: parse_hex4_def)
        then show ?thesis by (rule invalid)
      next
        case d2: (Some d2)
        with c2 have "i + 2 < length t" by (simp add: hex_digit_peek)
        then obtain c3 where c3: "peek t (i + 3) = Ret c3" using peek_in_text [of "i + 3" t] by auto
        show ?thesis
        proof (cases "hex_digit c3")
          case None
          with c0 d0 c1 d1 c2 d2 c3 have "parse_hex4 t i = Ret 0" by (simp add: parse_hex4_def)
          then show ?thesis by (rule invalid)
        next
          case d3: (Some d3)
          have "parse_hex4 t i = Ret (push_bit 4 (push_bit 4 (push_bit 4 (0 + d0) + d1) + d2) + d3)"
            using c0 d0 c1 d1 c2 d2 c3 d3 by (simp add: parse_hex4_def)
          with c0 c1 c2 c3 d0 d1 d2 d3 show ?thesis by (rule valid)
        qed
      qed
    qed
  qed
qed

lemma parse_hex4_no_fault: "i \<le> length t \<Longrightarrow> \<exists>w. parse_hex4 t i = Ret w"
  by (erule parse_hex4_cases) auto

lemma reach_hex4:
  assumes r: "reach t q e" and h: "parse_hex4 t q = Ret w" and nz: "w \<noteq> 0"
  shows "reach t (q + 4) e"
proof -
  from reach_bounds [OF r] have "q \<le> length t" by simp
  then show ?thesis
  proof (cases rule: parse_hex4_cases)
    case invalid
    with h nz show ?thesis by simp
  next
    case (valid c0 c1 c2 c3 d0 d1 d2 d3)
    have r1: "reach t (q + 1) e" using r valid(1) hex_digit_plain [OF valid(5)] by (rule reach_plain)
    have "reach t (q + 1 + 1) e" using r1 valid(2) hex_digit_plain [OF valid(6)] by (rule reach_plain)
    then have r2: "reach t (q + 2) e" by (simp add: numeral_2_eq_2)
    have "reach t (q + 2 + 1) e" using r2 valid(3) hex_digit_plain [OF valid(7)] by (rule reach_plain)
    then have r3: "reach t (q + 3) e" by (simp add: numeral_3_eq_3)
    have "reach t (q + 3 + 1) e" using r3 valid(4) hex_digit_plain [OF valid(8)] by (rule reach_plain)
    then show ?thesis by (simp add: eval_nat_numeral)
  qed
qed


lemma escape_u_low_or_zero:
  assumes "parse_hex4 t (ptr0 + 1) = Ret uc" "(uc \<ge> 0xDC00 \<and> uc \<le> 0xDFFF) \<or> uc = 0"
  shows "escape_u t str e ptr0 = Null (Some str)"
  using assms by (simp add: escape_u_def)

lemma surrogate_pair_sound:
  assumes r: "reach t (ptr + 1) e"
  shows "surrogate_pair t str e ptr uc = Null (Some str)
         \<or> (\<exists>ptr' bytes. surrogate_pair t str e ptr uc = Ret (ptr', bytes) \<and> reach t (ptr' + 1) e)"
proof -
  from reach_peek [OF r] obtain c1 where c1: "peek t (ptr + 1) = Ret c1" by blast
  show ?thesis
  proof (cases "ptr + 6 > e \<or> c1 \<noteq> backslash")
    case True
    then show ?thesis using c1 by (auto simp add: surrogate_pair_def)
  next
    case False
    then have far: "\<not> ptr + 6 > e" and b: "c1 = backslash" by simp_all
    from c1 b have "peek t (ptr + 1) = Ret backslash" by simp
    from reach_escape [OF r this] obtain c2 where c2': "peek t (ptr + 1 + 1) = Ret c2"
      and r3': "reach t (ptr + 1 + 2) e" by blast
    have c2: "peek t (ptr + 2) = Ret c2" using c2' by (simp add: numeral_2_eq_2)
    have r3: "reach t (ptr + 3) e" using r3' by (simp add: numeral_3_eq_3)
    from reach_bounds [OF r3] have "ptr + 3 \<le> length t" by simp
    from parse_hex4_no_fault [OF this] obtain uc2 where uc2: "parse_hex4 t (ptr + 3) = Ret uc2" by blast
    show ?thesis
    proof (cases "c2 \<noteq> CHR ''u'' \<or> uc2 < 0xDC00 \<or> uc2 > 0xDFFF")
      case True
      then show ?thesis using c1 b c2 uc2 far by (auto simp add: surrogate_pair_def)
    next
      case False
      then have "uc2 \<noteq> 0" by auto
      from reach_hex4 [OF r3 uc2 this] have r7: "reach t (ptr + 6 + 1) e" by (simp add: add.commute)
      have "surrogate_pair t str e ptr uc = Ret (ptr + 6,
              utf8_encode (0x10000 + (push_bit 10 (uc AND 0x3FF) OR (uc2 AND 0x3FF))))"
        using False c1 b c2 uc2 far by (auto simp add: surrogate_pair_def)
      with r7 show ?thesis by blast
    qed
  qed
qed

lemma escape_u_sound:
  assumes r: "reach t (ptr0 + 1) e"
  shows "escape_u t str e ptr0 = Null (Some str)
         \<or> (\<exists>ptr' bytes. escape_u t str e ptr0 = Ret (ptr', bytes) \<and> reach t (ptr' + 1) e)"
proof -
  from reach_bounds [OF r] have le: "ptr0 + 1 \<le> length t" by simp
  from parse_hex4_no_fault [OF le] obtain uc where uc: "parse_hex4 t (ptr0 + 1) = Ret uc" by blast
  show ?thesis
  proof (cases "ptr0 + 4 \<ge> e \<or> (uc \<ge> 0xDC00 \<and> uc \<le> 0xDFFF) \<or> uc = 0")
    case True
    then show ?thesis using uc by (auto simp add: escape_u_def)
  next
    case False
    then have nz: "uc \<noteq> 0" by simp
    from reach_hex4 [OF r uc nz] have r5: "reach t (ptr0 + 4 + 1) e" by (simp add: add.commute)
    show ?thesis
    proof (cases "uc \<ge> 0xD800 \<and> uc \<le> 0xDBFF")
      case nh: False
      have "escape_u t str e ptr0 = Ret (ptr0 + 4, utf8_encode uc)"
        using uc False nh by (auto simp add: escape_u_def)
      with r5 show ?thesis by blast
    next
      case hi: True
      have "escape_u t str e ptr0 = surrogate_pair t str e (ptr0 + 4) uc"
        using uc False hi by (auto simp add: escape_u_def)
      with surrogate_pair_sound [OF r5, of str uc] show ?thesis by simp
    qed
  qed
qed

lemma decode_stop:
  "\<not> ptr < e \<Longrightarrow> peek t ptr = Ret c \<Longrightarrow>
   decode_string t str e ptr out = Ret (out, if c = dquote then ptr + 1 else ptr)"
  by (subst decode_string.simps) simp

lemma decode_plain:
  "ptr < e \<Longrightarrow> peek t ptr = Ret c \<Longrightarrow> c \<noteq> backslash \<Longrightarrow>
   decode_string t str e ptr out = decode_string t str e (ptr + 1) (out @ [c])"
  by (subst decode_string.simps) simp

lemma decode_simple_escape:
  "ptr < e \<Longrightarrow> peek t ptr = Ret backslash \<Longrightarrow> peek t (ptr + 1) = Ret c \<Longrightarrow>
   simple_escape c = Some b \<Longrightarrow>
   decode_string t str e ptr out = decode_string t str e (ptr + 2) (out @ [b])"
  by (subst decode_string.simps) simp

lemma decode_bad_escape:
  "ptr < e \<Longrightarrow> peek t ptr = Ret backslash \<Longrightarrow> peek t (ptr + 1) = Ret c \<Longrightarrow>
   simple_escape c = None \<Longrightarrow> c \<noteq> CHR ''u'' \<Longrightarrow>
   decode_string t str e ptr out = Null (Some str)"
  by (subst decode_string.simps) simp

lemma simple_escape_u: "simple_escape (CHR ''u'') = None"
  by (simp add: simple_escape_def dquote_def backslash_def)

lemma decode_escape_u_fail:
  "ptr < e \<Longrightarrow> peek t ptr = Ret backslash \<Longrightarrow> peek t (ptr + 1) = Ret (CHR ''u'') \<Longrightarrow>
   escape_u t str e (ptr + 1) = Null x \<Longrightarrow>
   decode_string t str e ptr out = Null x"
  by (subst decode_string.simps) (simp add: simple_escape_u)

lemma decode_escape_u_ok:
  "ptr < e \<Longrightarrow> peek t ptr = Ret backslash \<Longrightarrow> peek t (ptr + 1) = Ret (CHR ''u'') \<Longrightarrow>
   escape_u t str e (ptr + 1) = Ret (ptr', bytes) \<Longrightarrow>
   decode_string t str e ptr out = decode_string t str e (ptr' + 1) (out @ bytes)"
  by (subst decode_string.simps) (simp add: simple_escape_u)

lemma decode_no_fault:
  "reach t ptr e \<Longrightarrow>
   decode_string t str e ptr out \<noteq> Fault \<and> decode_string t str e ptr out \<noteq> Timeout"
proof (induction "e - ptr" arbitrary: ptr out rule: less_induct)
  case less
  note r = less.prems
  from reach_bounds [OF r] have le: "ptr \<le> e" by simp
  from reach_peek [OF r] obtain c where c: "peek t ptr = Ret c" by blast
  show ?case
  proof (cases "ptr < e")
    case False
    with c show ?thesis by (simp add: decode_stop)
  next
    case True
    consider "c = dquote \<or> c = NUL" | "c = backslash" | "plain c" using char_cases by blast
    then show ?thesis
    proof cases
      case 1
      from reach_stop [OF r c 1] True show ?thesis by simp
    next
      case 3
      from reach_plain [OF r c 3] have "reach t (ptr + 1) e" .
      moreover have "e - (ptr + 1) < e - ptr" using True by simp
      ultimately have "decode_string t str e (ptr + 1) (out @ [c]) \<noteq> Fault
          \<and> decode_string t str e (ptr + 1) (out @ [c]) \<noteq> Timeout"
        using less.hyps by blast
      with True c 3 show ?thesis by (simp add: decode_plain plain_def)
    next
      case 2
      with c have cb: "peek t ptr = Ret backslash" by simp
      from reach_escape [OF r cb] obtain c' where c': "peek t (ptr + 1) = Ret c'"
        and r2: "reach t (ptr + 2) e" by auto
      show ?thesis
      proof (cases "simple_escape c'")
        case (Some b)
        have "e - (ptr + 2) < e - ptr" using True by simp
        with r2 have "decode_string t str e (ptr + 2) (out @ [b]) \<noteq> Fault
          \<and> decode_string t str e (ptr + 2) (out @ [b]) \<noteq> Timeout"
          using less.hyps by blast
        with True cb c' Some show ?thesis by (simp add: decode_simple_escape)
      next
        case None
        show ?thesis
        proof (cases "c' = CHR ''u''")
          case False
          with True cb c' None show ?thesis by (simp add: decode_bad_escape)
        next
          case u: True
          with c' have cu: "peek t (ptr + 1) = Ret (CHR ''u'')" by simp
          from r2 have "reach t (ptr + 1 + 1) e" by simp
          from escape_u_sound [OF this, of str]
          consider "escape_u t str e (ptr + 1) = Null (Some str)"
            | ptr' bytes where "escape_u t str e (ptr + 1) = Ret (ptr', bytes)" "reach t (ptr' + 1) e"
            by blast
          then show ?thesis
          proof cases
            case 1
            with True cb cu show ?thesis by (simp add: decode_escape_u_fail)
          next
            case 2
            from escape_u_advances [OF 2(1)] have "e - (ptr' + 1) < e - ptr" using True by simp
            with 2(2) have "decode_string t str e (ptr' + 1) (out @ bytes) \<noteq> Fault
              \<and> decode_string t str e (ptr' + 1) (out @ bytes) \<noteq> Timeout"
              using less.hyps by blast
            with True cb cu 2(1) show ?thesis by (simp add: decode_escape_u_ok)
          qed
        qed
      qed
    qed
  qed
qed

text \<open>\<open>parse_string\<close> never reads outside the input.\<close>

theorem parse_string_no_fault:
  assumes "str \<le> length t"
  shows "parse_string t str \<noteq> Fault \<and> parse_string t str \<noteq> Timeout"
proof -
  from peek_in_text [OF assms] obtain c where c: "peek t str = Ret c" by blast
  show ?thesis
  proof (cases "c = dquote")
    case False
    with c show ?thesis by (simp add: parse_string_def)
  next
    case True
    then have "c \<noteq> NUL" by simp
    with c have "str < length t" by (rule peek_not_NUL)
    then have le: "str + 1 \<le> length t" by simp
    show ?thesis
    proof (cases "scan_string t (str + 1) 0")
      case (Ret r)
      obtain e len where r: "r = (e, len)" by (cases r)
      with Ret have "reach t (str + 1) e" unfolding reach_def by blast
      from decode_no_fault [OF this] show ?thesis using c True Ret r by (simp add: parse_string_def)
    next
      case (Null x)
      with c True show ?thesis by (simp add: parse_string_def)
    next
      case Fault
      with scan_no_fault [OF le] show ?thesis by simp
    next
      case Timeout
      with scan_no_fault [OF le] show ?thesis by simp
    qed
  qed
qed


lemma peek_append: "peek (pre @ c # rest) (length pre) = Ret c"
  by (simp add: peek_def)

lemma peek_append_end: "peek (pre @ [c]) (Suc (length pre)) = Ret NUL"
  by (simp add: peek_def)

lemma scan_trailing_backslash:
  "body_tokens b \<Longrightarrow> scan_string (pre @ b @ [backslash]) (length pre) len = Null None"
proof (induction b arbitrary: pre len rule: body_tokens.induct)
  case 1
  have "peek (pre @ [backslash]) (length pre) = Ret backslash" by (rule peek_append)
  moreover have "peek (pre @ [backslash]) (length pre + 1) = Ret NUL" by (simp add: peek_def)
  ultimately show ?case by (simp add: scan_escape)
next
  case (2 c)
  then have p: "plain c" by simp
  have "peek (pre @ c # [backslash]) (length pre) = Ret c" by (rule peek_append)
  then have "scan_string (pre @ [c] @ [backslash]) (length pre) len
      = scan_string (pre @ [c] @ [backslash]) (length pre + 1) (len + 1)"
    using p by (simp add: scan_plain)
  also have "\<dots> = scan_string ((pre @ [c]) @ [backslash]) (length (pre @ [c])) (len + 1)" by simp
  also have "\<dots> = Null None"
  proof -
    have "peek ((pre @ [c]) @ [backslash]) (length (pre @ [c])) = Ret backslash" by (rule peek_append)
    moreover have "peek ((pre @ [c]) @ [backslash]) (length (pre @ [c]) + 1) = Ret NUL"
      by (simp add: peek_def)
    ultimately show ?thesis by (simp add: scan_escape)
  qed
  finally show ?case by simp
next
  case (3 c d cs)
  show ?case
  proof (cases "c = backslash")
    case True
    with "3.prems" have d: "d \<noteq> NUL" and b: "body_tokens cs" by simp_all
    have "peek (pre @ c # (d # cs) @ [backslash]) (length pre) = Ret c" by (rule peek_append)
    moreover have "peek (pre @ c # (d # cs) @ [backslash]) (length pre + 1) = Ret d"
      using peek_append [of "pre @ [c]" d "cs @ [backslash]"] by simp
    ultimately have "scan_string (pre @ (c # d # cs) @ [backslash]) (length pre) len
        = scan_string (pre @ (c # d # cs) @ [backslash]) (length pre + 2) (len + 1)"
      using True d by (simp add: scan_escape)
    also have "\<dots> = scan_string ((pre @ [c, d]) @ cs @ [backslash]) (length (pre @ [c, d])) (len + 1)"
      by simp
    also have "\<dots> = Null None" using True b by (rule "3.IH"(1))
    finally show ?thesis .
  next
    case False
    with "3.prems" have p: "plain c" and b: "body_tokens (d # cs)" by simp_all
    have "peek (pre @ c # (d # cs) @ [backslash]) (length pre) = Ret c" by (rule peek_append)
    then have "scan_string (pre @ (c # d # cs) @ [backslash]) (length pre) len
        = scan_string (pre @ (c # d # cs) @ [backslash]) (length pre + 1) (len + 1)"
      using p by (simp add: scan_plain)
    also have "\<dots> = scan_string ((pre @ [c]) @ (d # cs) @ [backslash]) (length (pre @ [c])) (len + 1)"
      by simp
    also have "\<dots> = Null None" using False b by (rule "3.IH"(2))
    finally show ?thesis .
  qed
qed

theorem trailing_backslash_fails:
  assumes "body_tokens b"
  shows "parse_string (dquote # b @ [backslash]) 0 = Null None"
proof -
  have "scan_string ([dquote] @ b @ [backslash]) (length [dquote]) 0 = Null None"
    using assms by (rule scan_trailing_backslash)
  then show ?thesis by (simp add: parse_string_def peek_def)
qed

lemma scan_plain_run:
  "\<forall>c \<in> set b. plain c \<Longrightarrow>
   scan_string (pre @ b @ rest) (length pre) len
     = scan_string (pre @ b @ rest) (length pre + length b) (len + length b)"
proof (induction b arbitrary: pre len)
  case Nil
  show ?case by simp
next
  case (Cons c b)
  have "peek (pre @ c # b @ rest) (length pre) = Ret c" by (rule peek_append)
  then have "scan_string (pre @ (c # b) @ rest) (length pre) len
      = scan_string (pre @ (c # b) @ rest) (length pre + 1) (len + 1)"
    using Cons.prems by (simp add: scan_plain)
  also have "\<dots> = scan_string ((pre @ [c]) @ b @ rest) (length (pre @ [c])) (len + 1)" by simp
  also have "\<dots> = scan_string ((pre @ [c]) @ b @ rest) (length (pre @ [c]) + length b) (len + 1 + length b)"
    using Cons.prems by (intro Cons.IH) simp
  finally show ?case by simp
qed

lemma decode_plain_run:
  "\<forall>c \<in> set b. plain c \<Longrightarrow> length pre + length b \<le> e \<Longrightarrow>
   decode_string (pre @ b @ rest) str e (length pre) out
     = decode_string (pre @ b @ rest) str e (length pre + length b) (out @ b)"
proof (induction b arbitrary: pre out)
  case Nil
  show ?case by simp
next
  case (Cons c b)
  have "peek (pre @ c # b @ rest) (length pre) = Ret c" by (rule peek_append)
  moreover have "length pre < e" using Cons.prems by simp
  moreover have "c \<noteq> backslash" using Cons.prems by (simp add: plain_def)
  ultimately have "decode_string (pre @ (c # b) @ rest) str e (length pre) out
      = decode_string (pre @ (c # b) @ rest) str e (length pre + 1) (out @ [c])"
    by (simp add: decode_plain)
  also have "\<dots> = decode_string ((pre @ [c]) @ b @ rest) str e (length (pre @ [c])) (out @ [c])" by simp
  also have "\<dots> = decode_string ((pre @ [c]) @ b @ rest) str e (length (pre @ [c]) + length b) ((out @ [c]) @ b)"
    using Cons.prems by (intro Cons.IH) simp_all
  finally show ?case by simp
qed

theorem missing_quote_accepted:
  assumes "\<forall>c \<in> set b. plain c"
  shows "parse_string (dquote # b) 0 = Ret (b, Suc (length b))"
proof -
  let ?t = "dquote # b"
  have t: "?t = [dquote] @ b @ []" by simp
  have e: "peek ?t (Suc (length b)) = Ret NUL" by (simp add: peek_def)
  have "scan_string ?t 1 0 = scan_string ([dquote] @ b @ []) (length [dquote]) 0" by simp
  also have "\<dots> = scan_string ([dquote] @ b @ []) (length [dquote] + length b) (0 + length b)"
    using assms by (rule scan_plain_run)
  also have "\<dots> = scan_string ?t (Suc (length b)) (length b)" by simp
  also have "\<dots> = Ret (Suc (length b), length b)" using e by (simp add: scan_stop)
  finally have s: "scan_string ?t 1 0 = Ret (Suc (length b), length b)" .
  have "decode_string ?t 0 (Suc (length b)) 1 []
      = decode_string ([dquote] @ b @ []) 0 (Suc (length b)) (length [dquote]) []" by simp
  also have "\<dots> = decode_string ([dquote] @ b @ []) 0 (Suc (length b)) (length [dquote] + length b) ([] @ b)"
    using assms by (intro decode_plain_run) simp_all
  also have "\<dots> = decode_string ?t 0 (Suc (length b)) (Suc (length b)) b" by simp
  also have "\<dots> = Ret (b, Suc (length b))" using e by (simp add: decode_stop)
  finally have d: "decode_string ?t 0 (Suc (length b)) 1 [] = Ret (b, Suc (length b))" .
  show ?thesis using s d by (simp add: parse_string_def peek_def)
qed


































text \<open>
  C5, as stated, fails for an input that merely ends before the closing quote: the first
  loop stops at the terminator as it does at a quote, and the closing quote is skipped
  only if present, so the literal is taken to end where the input ends.
\<close>

theorem C5_missing_quote_is_accepted:
  "parse_string (dquote # ''abc'') 0 = Ret (''abc'', 4)"
  by code_simp

text \<open>
  C5, amended: \<open>parse_string\<close> never reads past the end of the input, whatever the input;
  a literal whose input ends on a trailing unescaped backslash fails; a literal without
  escapes whose input ends before the closing quote does not fail: it yields the
  characters up to the end of the input.
\<close>

theorem C5_unterminated_strings:
  "(\<forall>t str. str \<le> length t \<longrightarrow> parse_string t str \<noteq> Fault)
   \<and> (\<forall>b. body_tokens b \<longrightarrow> parse_string (dquote # b @ [backslash]) 0 = Null None)
   \<and> (\<forall>b. (\<forall>c \<in> set b. plain c) \<longrightarrow> parse_string (dquote # b) 0 = Ret (b, Suc (length b)))"
  using parse_string_no_fault trailing_backslash_fails missing_quote_accepted by blast

theorem C5_unterminated_strings_witness:
  "parse_string (dquote # ''ab'' @ [backslash, CHR ''n'', backslash]) 6 \<noteq> Fault
   \<and> parse_string (dquote # ''ab'' @ [backslash, CHR ''n''] @ [backslash]) 0 = Null None
   \<and> parse_string (dquote # ''xyz'') 0 = Ret (''xyz'', 4)"
proof -
  have b: "body_tokens (''ab'' @ [backslash, CHR ''n''])"
    by (simp add: plain_def dquote_def backslash_def NUL_def)
  have p: "\<forall>c \<in> set ''xyz''. plain c"
    by (simp add: plain_def dquote_def backslash_def NUL_def)
  have l: "6 \<le> length (dquote # ''ab'' @ [backslash, CHR ''n'', backslash])" by simp
  from C5_unterminated_strings [THEN conjunct1, rule_format, OF l]
    C5_unterminated_strings [THEN conjunct2, THEN conjunct1, rule_format, OF b]
    C5_unterminated_strings [THEN conjunct2, THEN conjunct2, THEN spec, of "''xyz''"] p
  show ?thesis by simp
qed

section \<open>Properties of the error slot\<close>

text \<open>
  C6 at a concrete input: the text consisting of a double quote and a backslash is
  malformed and the parse fails, but no position is recorded: \<open>parse_string\<close> returns \<open>NULL\<close>
  from its first loop without assigning \<open>*ep\<close>, and the error accessor returns \<open>NULL\<close> as it
  does after a successful parse. This holds whatever \<open>strtod\<close> does and whatever the slot
  held before.
\<close>

theorem C6_parse_failure_without_position:
  "returned (cJSON_Parse sd g [dquote, backslash]) = Null None
   \<and> cJSON_GetErrorPtr (cJSON_Parse sd g [dquote, backslash]) = None"
  by code_simp

text \<open>
  The same happens in \<open>parse_number\<close> when \<open>strtod\<close> performs no conversion, as for the text
  consisting of a minus sign.
\<close>

lemma parse_number_failure_without_position:
  assumes "snd (sd ''-'' 0) = 0"
  shows "returned (cJSON_Parse sd g ''-'') = Null None
         \<and> cJSON_GetErrorPtr (cJSON_Parse sd g ''-'') = None"
proof -
  have s: "skip ''-'' 0 = Ret 0" by (subst skip.simps) (simp add: peek_def NUL_def)
  have "parse_number sd ''-'' 0 = Null None"
    using assms by (cases "sd ''-'' 0") (simp add: parse_number_def)
  then have "parse_value (Suc (Suc (Suc 0))) sd ''-'' 0 = Null None"
    by (simp add: peek_def strncmp_eq_def dquote_def)
  then show ?thesis
    using s by (simp add: cJSON_Parse_def cJSON_ParseWithOpts_def store_ep_def
        cJSON_GetErrorPtr_def eval_nat_numeral)
qed

section \<open>Properties of the composer\<close>









end
